theory Spec2Isabelle
  imports Main "HOL-Library.Char_ord" "HOL-Library.List_Lexorder"
begin

section \<open>photoMir: synchronising image metadata between a bucket and a document store\<close>

text \<open>
  A shallow embedding of \<^verbatim>\<open>src/main.py\<close>. The script talks to four external services
  (object storage, a generative tagging model, a translation service, a document store).
  The contents of the bucket and of the document collection are part of the state
  (\<open>world\<close>); everything else the services decide (transport failures, the text the model
  answers, the translations, the clock) is an oracle in the record \<open>env\<close>. Every oracle
  receives the history of service calls made so far, so a service may answer the same
  request differently at different moments of a run.

  A Python \<^verbatim>\<open>str\<close> is a \<open>string\<close>, one \<open>char\<close> per code point; the model covers the code
  points below 256. Exceptions are values of type \<open>error\<close>, a function that may raise
  returns \<open>error + 'a\<close> together with the new world.
\<close>

subsection \<open>Data\<close>

type_synonym bytes = "char list"

datatype image = Image bytes

datatype error = ServiceError string | KeyError string

text \<open>The dictionary built at lines 112-118 of the source.\<close>

record metadata =
  file_id :: string
  file_name :: string
  tags_en :: "string list"
  tags_pt :: "string list"
  processed_at :: string

text \<open>The answer of the tagging model; reading its \<^verbatim>\<open>.text\<close> property may raise.\<close>

datatype response = Response (response_text: "error + string")

text \<open>Requests sent to the external services, in the order they are issued.\<close>

datatype call =
    ListBlobs string string
  | DownloadBytes string string
  | GenerateContent string image
  | Translate "string list" string
  | StreamDocs
  | DeleteDoc string
  | SetDoc string metadata

text \<open>The lines the script prints, one constructor per \<^verbatim>\<open>print\<close> statement.\<close>

datatype logline =
    LogStart string
  | LogFirestoreError error
  | LogDeleting nat
  | LogDeleted string
  | LogDeleteError string error
  | LogNoneRemoved
  | LogNewCount nat
  | LogProcessingStart
  | LogProcessing nat nat string
  | LogGeminiError error
  | LogSaved string
  | LogProcessError string error
  | LogNoneNew
  | LogDone

record world =
  buckets :: "string \<Rightarrow> (string \<times> bytes) list"
  docs :: "string \<rightharpoonup> metadata"
  calls :: "call list"
  out :: "logline list"

record env =
  BUCKET_NAME :: string
  BUCKET_FOLDER_PATH :: string
  GEMINI_MODEL :: string
  storage_list_fault :: "call list \<Rightarrow> error option"
  storage_download_fault :: "call list \<Rightarrow> string \<Rightarrow> error option"
  image_open :: "bytes \<Rightarrow> error + image"
  generate_content :: "call list \<Rightarrow> image \<Rightarrow> error + response"
  translate :: "call list \<Rightarrow> string list \<Rightarrow> string \<Rightarrow> error + (string \<rightharpoonup> string) list"
  firestore_stream_fault :: "call list \<Rightarrow> error option"
  firestore_delete_fault :: "call list \<Rightarrow> string \<Rightarrow> error option"
  firestore_set_fault :: "call list \<Rightarrow> string \<Rightarrow> metadata \<Rightarrow> error option"
  utcnow_isoformat :: "call list \<Rightarrow> string"
  set_iter :: "string set \<Rightarrow> string list"

definition GEMINI_PROMPT :: string where
  "GEMINI_PROMPT = ''Analyze this image and provide a list of descriptive tags in English, separated by commas. Focus on objects, scenes, and key attributes. Return only the tags, nothing else.''"

definition issue :: "call \<Rightarrow> world \<Rightarrow> world" where
  "issue c w = w\<lparr>calls := calls w @ [c]\<rparr>"

definition print_line :: "logline \<Rightarrow> world \<Rightarrow> world" where
  "print_line l w = w\<lparr>out := out w @ [l]\<rparr>"

subsection \<open>String operations of Python used by the script\<close>

text \<open>\<^verbatim>\<open>s.startswith(p)\<close> and \<^verbatim>\<open>s.endswith(suf)\<close>.\<close>

definition startswith :: "string \<Rightarrow> string \<Rightarrow> bool" where
  "startswith s p = (take (length p) s = p)"

definition endswith :: "string \<Rightarrow> string \<Rightarrow> bool" where
  "endswith s suf = (length suf \<le> length s \<and> drop (length s - length suf) s = suf)"

text \<open>\<^verbatim>\<open>s.endswith(tuple)\<close>: one of the suffixes matches.\<close>

definition endswith_any :: "string \<Rightarrow> string list \<Rightarrow> bool" where
  "endswith_any s sufs = list_ex (endswith s) sufs"

text \<open>\<^verbatim>\<open>os.path.basename\<close> (POSIX): what follows the last slash.\<close>

definition basename :: "string \<Rightarrow> string" where
  "basename p = rev (takeWhile (\<lambda>c. c \<noteq> CHR ''/'') (rev p))"

text \<open>\<^verbatim>\<open>str.isspace\<close> on the code points below 256.\<close>

definition isspace :: "char \<Rightarrow> bool" where
  "isspace c = (of_char c \<in> {9, 10, 11, 12, 13, 28, 29, 30, 31, 32, 133, 160 :: nat})"

definition strip :: "string \<Rightarrow> string" where
  "strip s = rev (dropWhile isspace (rev (dropWhile isspace s)))"

text \<open>\<^verbatim>\<open>s.split(sep)\<close> for a one-character separator: always at least one segment.\<close>

fun split :: "char \<Rightarrow> string \<Rightarrow> string list" where
  "split sep [] = [[]]"
| "split sep (c # cs) =
     (if c = sep then [] # split sep cs
      else (case split sep cs of [] \<Rightarrow> [[c]] | seg # segs \<Rightarrow> (c # seg) # segs))"

subsection \<open>\<^verbatim>\<open>list_images_in_bucket\<close>\<close>

text \<open>\<^verbatim>\<open>bucket.list_blobs(prefix=...)\<close>: the names in the bucket that start with the prefix.\<close>

definition list_blobs :: "world \<Rightarrow> string \<Rightarrow> string \<Rightarrow> string list" where
  "list_blobs w bucket_name prefix =
     filter (\<lambda>name. startswith name prefix) (map fst (buckets w bucket_name))"

text \<open>The loop of lines 71-75, \<open>files\<close> being the set under construction.\<close>

fun collect_files :: "string \<Rightarrow> string list \<Rightarrow> string set \<Rightarrow> string set" where
  "collect_files folder_path [] files = files"
| "collect_files folder_path (name # blobs) files =
     collect_files folder_path blobs
       (if endswith_any name [''.jpg'', ''.jpeg'', ''.png'']
        then (if name \<noteq> folder_path then insert (basename name) files else files)
        else files)"

definition list_images_in_bucket ::
  "env \<Rightarrow> string \<Rightarrow> string \<Rightarrow> world \<Rightarrow> (error + string set) \<times> world" where
  "list_images_in_bucket env bucket_name folder_path w =
     (let w1 = issue (ListBlobs bucket_name folder_path) w in
      case storage_list_fault env (calls w) of
        Some e \<Rightarrow> (Inl e, w1)
      | None \<Rightarrow> (Inr (collect_files folder_path (list_blobs w bucket_name folder_path) {}), w1))"

subsection \<open>\<^verbatim>\<open>get_image_metadata\<close>\<close>

text \<open>\<^verbatim>\<open>blob.download_as_bytes()\<close>: fails when the object does not exist or the transport fails.\<close>

definition download_as_bytes :: "env \<Rightarrow> string \<Rightarrow> world \<Rightarrow> (error + bytes) \<times> world" where
  "download_as_bytes env name w =
     (let w1 = issue (DownloadBytes (BUCKET_NAME env) name) w in
      case storage_download_fault env (calls w) name of
        Some e \<Rightarrow> (Inl e, w1)
      | None \<Rightarrow>
          (case map_of (buckets w (BUCKET_NAME env)) name of
             None \<Rightarrow> (Inl (ServiceError ''NotFound''), w1)
           | Some content \<Rightarrow> (Inr content, w1)))"

text \<open>Lines 89-96: the call of the model; a failure is printed and raised again.\<close>

definition call_gemini :: "env \<Rightarrow> image \<Rightarrow> world \<Rightarrow> (error + response) \<times> world" where
  "call_gemini env img w =
     (let w1 = issue (GenerateContent GEMINI_PROMPT img) w in
      case generate_content env (calls w) img of
        Inl e \<Rightarrow> (Inl e, print_line (LogGeminiError e) w1)
      | Inr r \<Rightarrow> (Inr r, w1))"

text \<open>Lines 99-102: the tags of the answer's text.\<close>

definition parse_tags :: "string \<Rightarrow> string list" where
  "parse_tags gemini_tags_text =
     map strip (filter (\<lambda>tag. strip tag \<noteq> []) (split CHR '','' gemini_tags_text))"

definition all_tags_en_of :: "string \<Rightarrow> string list" where
  "all_tags_en_of txt = (if txt \<noteq> [] then parse_tags txt else [])"

text \<open>The comprehension of line 108; a dictionary without the key raises \<^verbatim>\<open>KeyError\<close>.\<close>

fun translated_texts :: "(string \<rightharpoonup> string) list \<Rightarrow> error + string list" where
  "translated_texts [] = Inr []"
| "translated_texts (t # ts) =
     (case t ''translatedText'' of
        None \<Rightarrow> Inl (KeyError ''translatedText'')
      | Some s \<Rightarrow> (case translated_texts ts of Inl e \<Rightarrow> Inl e | Inr ss \<Rightarrow> Inr (s # ss)))"

text \<open>Lines 105-108.\<close>

definition translate_tags :: "env \<Rightarrow> string list \<Rightarrow> world \<Rightarrow> (error + string list) \<times> world" where
  "translate_tags env all_tags_en w =
     (if all_tags_en \<noteq> [] then
        (let w1 = issue (Translate all_tags_en ''pt'') w in
         case translate env (calls w) all_tags_en ''pt'' of
           Inl e \<Rightarrow> (Inl e, w1)
         | Inr translations \<Rightarrow> (translated_texts translations, w1))
      else (Inr [], w))"

definition get_image_metadata :: "env \<Rightarrow> string \<Rightarrow> world \<Rightarrow> (error + metadata) \<times> world" where
  "get_image_metadata env file_name_with_path w =
     (case download_as_bytes env file_name_with_path w of
        (Inl e, w1) \<Rightarrow> (Inl e, w1)
      | (Inr file_content, w1) \<Rightarrow>
     (case image_open env file_content of
        Inl e \<Rightarrow> (Inl e, w1)
      | Inr img \<Rightarrow>
     (case call_gemini env img w1 of
        (Inl e, w2) \<Rightarrow> (Inl e, w2)
      | (Inr r, w2) \<Rightarrow>
     (case response_text r of
        Inl e \<Rightarrow> (Inl e, w2)
      | Inr txt \<Rightarrow>
     (let all_tags_en = all_tags_en_of txt in
      case translate_tags env all_tags_en w2 of
        (Inl e, w3) \<Rightarrow> (Inl e, w3)
      | (Inr all_tags_pt, w3) \<Rightarrow>
          (Inr \<lparr>file_id = basename file_name_with_path,
                file_name = file_name_with_path,
                tags_en = all_tags_en,
                tags_pt = all_tags_pt,
                processed_at = utcnow_isoformat env (calls w3)\<rparr>, w3))))))"

subsection \<open>\<^verbatim>\<open>save_metadata_to_firestore\<close>\<close>

definition save_metadata_to_firestore :: "env \<Rightarrow> metadata \<Rightarrow> world \<Rightarrow> (error + unit) \<times> world" where
  "save_metadata_to_firestore env md w =
     (let doc_id = file_id md;
          w1 = issue (SetDoc doc_id md) w in
      case firestore_set_fault env (calls w) doc_id md of
        Some e \<Rightarrow> (Inl e, w1)
      | None \<Rightarrow> (Inr (), print_line (LogSaved doc_id) (w1\<lparr>docs := (docs w1)(doc_id \<mapsto> md)\<rparr>)))"

subsection \<open>\<^verbatim>\<open>main\<close>\<close>

text \<open>Line 134: the identifiers of the documents of the collection.\<close>

definition stream_doc_ids :: "env \<Rightarrow> world \<Rightarrow> (error + string set) \<times> world" where
  "stream_doc_ids env w =
     (let w1 = issue StreamDocs w in
      case firestore_stream_fault env (calls w) of
        Some e \<Rightarrow> (Inl e, w1)
      | None \<Rightarrow> (Inr (dom (docs w)), w1))"

text \<open>Line 144: deleting one document.\<close>

definition document_delete :: "env \<Rightarrow> string \<Rightarrow> world \<Rightarrow> (error + unit) \<times> world" where
  "document_delete env doc_id w =
     (let w1 = issue (DeleteDoc doc_id) w in
      case firestore_delete_fault env (calls w) doc_id of
        Some e \<Rightarrow> (Inl e, w1)
      | None \<Rightarrow> (Inr (), w1\<lparr>docs := (docs w1)(doc_id := None)\<rparr>))"

text \<open>Lines 143-147: the body of the loop over the identifiers to delete.\<close>

definition delete_one :: "env \<Rightarrow> string \<Rightarrow> world \<Rightarrow> world" where
  "delete_one env fid w =
     (case document_delete env fid w of
        (Inr u, w1) \<Rightarrow> print_line (LogDeleted fid) w1
      | (Inl e, w1) \<Rightarrow> print_line (LogDeleteError fid e) w1)"

text \<open>Line 142: the loop, over the identifiers in the order of iteration.\<close>

fun delete_loop :: "env \<Rightarrow> string list \<Rightarrow> world \<Rightarrow> world" where
  "delete_loop env [] w = w"
| "delete_loop env (fid # rest) w = delete_loop env rest (delete_one env fid w)"

text \<open>Lines 158-164: the body of the loop over the new identifiers.\<close>

definition process_one :: "env \<Rightarrow> nat \<Rightarrow> nat \<Rightarrow> string \<Rightarrow> world \<Rightarrow> world" where
  "process_one env n i fid w =
     (let file_name_with_path = BUCKET_FOLDER_PATH env @ fid;
          w1 = print_line (LogProcessing i n file_name_with_path) w in
      case get_image_metadata env file_name_with_path w1 of
        (Inl e, w2) \<Rightarrow> print_line (LogProcessError file_name_with_path e) w2
      | (Inr md, w2) \<Rightarrow>
          (case save_metadata_to_firestore env md w2 of
             (Inl e, w3) \<Rightarrow> print_line (LogProcessError file_name_with_path e) w3
           | (Inr u, w3) \<Rightarrow> w3))"

text \<open>Line 157: \<^verbatim>\<open>enumerate(new_image_ids, 1)\<close>, \<open>n\<close> being \<^verbatim>\<open>len(new_image_ids)\<close>.\<close>

fun process_loop :: "env \<Rightarrow> nat \<Rightarrow> nat \<Rightarrow> string list \<Rightarrow> world \<Rightarrow> world" where
  "process_loop env n i [] w = w"
| "process_loop env n i (fid # rest) w =
     process_loop env n (Suc i) rest (process_one env n i fid w)"

text \<open>Lines 140-149: the documents whose image has left the bucket.\<close>

definition delete_removed :: "env \<Rightarrow> string set \<Rightarrow> world \<Rightarrow> world" where
  "delete_removed env deleted_image_ids w =
     (if deleted_image_ids \<noteq> {}
      then delete_loop env (set_iter env deleted_image_ids)
             (print_line (LogDeleting (card deleted_image_ids)) w)
      else print_line LogNoneRemoved w)"

text \<open>Lines 153-166: the images that have no document yet.\<close>

definition process_new :: "env \<Rightarrow> string set \<Rightarrow> world \<Rightarrow> world" where
  "process_new env new_image_ids w =
     (if new_image_ids \<noteq> {}
      then process_loop env (card new_image_ids) 1 (set_iter env new_image_ids)
             (print_line LogProcessingStart
                (print_line (LogNewCount (card new_image_ids)) w))
      else print_line LogNoneNew w)"

definition main :: "env \<Rightarrow> world \<Rightarrow> (error + unit) \<times> world" where
  "main env w0 =
     (let w = print_line (LogStart (GEMINI_MODEL env)) w0 in
      case list_images_in_bucket env (BUCKET_NAME env) (BUCKET_FOLDER_PATH env) w of
        (Inl e, w1) \<Rightarrow> (Inl e, w1)
      | (Inr storage_image_ids, w1) \<Rightarrow>
     (case stream_doc_ids env w1 of
        (Inl e, w2) \<Rightarrow> (Inr (), print_line (LogFirestoreError e) w2)
      | (Inr firestore_doc_ids, w2) \<Rightarrow>
     (let deleted_image_ids = firestore_doc_ids - storage_image_ids;
          w3 = delete_removed env deleted_image_ids w2;
          new_image_ids = storage_image_ids - firestore_doc_ids;
          w4 = process_new env new_image_ids w3
      in (Inr (), print_line LogDone w4))))"

subsection \<open>Notions used to state the properties\<close>

text \<open>What a run adds to the history of calls and to the output.\<close>

definition run_calls :: "world \<Rightarrow> world \<Rightarrow> call list" where
  "run_calls w w' = drop (length (calls w)) (calls w')"

definition run_out :: "world \<Rightarrow> world \<Rightarrow> logline list" where
  "run_out w w' = drop (length (out w)) (out w')"

text \<open>The lines printed by the \<^verbatim>\<open>except\<close> handlers.\<close>

fun is_error_line :: "logline \<Rightarrow> bool" where
  "is_error_line (LogFirestoreError e) = True"
| "is_error_line (LogDeleteError d e) = True"
| "is_error_line (LogGeminiError e) = True"
| "is_error_line (LogProcessError p e) = True"
| "is_error_line l = False"

fun is_download :: "call \<Rightarrow> bool" where
  "is_download (DownloadBytes b n) = True"
| "is_download c = False"

fun is_generate :: "call \<Rightarrow> bool" where
  "is_generate (GenerateContent p i) = True"
| "is_generate c = False"

fun is_translate :: "call \<Rightarrow> bool" where
  "is_translate (Translate ts l) = True"
| "is_translate c = False"

fun is_set :: "call \<Rightarrow> bool" where
  "is_set (SetDoc d m) = True"
| "is_set c = False"

fun is_delete :: "call \<Rightarrow> bool" where
  "is_delete (DeleteDoc d) = True"
| "is_delete c = False"

text \<open>The image identifiers of the configured folder: what line 131 computes when the
  listing succeeds.\<close>

definition present_ids :: "env \<Rightarrow> world \<Rightarrow> string set" where
  "present_ids env w =
     collect_files (BUCKET_FOLDER_PATH env)
       (list_blobs w (BUCKET_NAME env) (BUCKET_FOLDER_PATH env)) {}"

text \<open>Iterating over a Python set visits every element once, in some order.\<close>

definition set_iter_ok :: "env \<Rightarrow> bool" where
  "set_iter_ok env = (\<forall>S. finite S \<longrightarrow> set (set_iter env S) = S \<and> distinct (set_iter env S))"

text \<open>The configured folder is the bucket's root or ends with a slash.\<close>

definition folder_path_ok :: "env \<Rightarrow> bool" where
  "folder_path_ok env =
     (BUCKET_FOLDER_PATH env = [] \<or> last (BUCKET_FOLDER_PATH env) = CHR ''/'')"

text \<open>\<^verbatim>\<open>sep.join(segs)\<close>, the inverse of \<^verbatim>\<open>split\<close>.\<close>

fun join :: "char \<Rightarrow> string list \<Rightarrow> string" where
  "join sep [] = []"
| "join sep [seg] = seg"
| "join sep (seg # segs) = seg @ sep # join sep segs"

text \<open>A later world of the same run: the bucket is untouched, calls and output only grow.\<close>

definition extends :: "world \<Rightarrow> world \<Rightarrow> bool" where
  "extends w w' \<longleftrightarrow>
     buckets w' = buckets w \<and> (\<exists>cs. calls w' = calls w @ cs) \<and> (\<exists>ls. out w' = out w @ ls)"

text \<open>The record that processing the identifier \<open>fid\<close> writes: named after the path
  built at line 158, which is the name of an object of the bucket.\<close>

definition record_of :: "env \<Rightarrow> world \<Rightarrow> string \<Rightarrow> metadata \<Rightarrow> bool" where
  "record_of env w fid md \<longleftrightarrow>
     file_name md = BUCKET_FOLDER_PATH env @ fid \<and>
     file_id md = basename (BUCKET_FOLDER_PATH env @ fid) \<and>
     map_of (buckets w (BUCKET_NAME env)) (BUCKET_FOLDER_PATH env @ fid) \<noteq> None"

subsection \<open>Example configurations and worlds\<close>

text \<open>A configuration whose services never fail: the model answers a fixed text, the
  translation service answers one dictionary per tag, sets are iterated in sorted order.\<close>

definition env_ok :: "string \<Rightarrow> env" where
  "env_ok folder =
     \<lparr>BUCKET_NAME = ''photos'', BUCKET_FOLDER_PATH = folder, GEMINI_MODEL = ''gemini-1.5-flash'',
      storage_list_fault = (\<lambda>h. None),
      storage_download_fault = (\<lambda>h name. None),
      image_open = (\<lambda>content. Inr (Image content)),
      generate_content = (\<lambda>h img. Inr (Response (Inr ''cat, dog, outdoor,''))),
      translate = (\<lambda>h tags lang.
         Inr (map (\<lambda>t. [''translatedText'' \<mapsto> ''pt-'' @ t, ''input'' \<mapsto> t]) tags)),
      firestore_stream_fault = (\<lambda>h. None),
      firestore_delete_fault = (\<lambda>h doc_id. None),
      firestore_set_fault = (\<lambda>h doc_id md. None),
      utcnow_isoformat = (\<lambda>h. ''2024-05-01T12:00:00+00:00''),
      set_iter = sorted_list_of_set\<rparr>"

definition old_record :: "string \<Rightarrow> metadata" where
  "old_record fid =
     \<lparr>file_id = fid, file_name = fid, tags_en = [''old''], tags_pt = [''velho''],
      processed_at = ''2023-01-01T00:00:00+00:00''\<rparr>"

definition w_listing :: world where
  "w_listing =
     \<lparr>buckets = (\<lambda>b. [(''p/'', ''''), (''p/a.jpg'', ''A''), (''p/B.JPG'', ''B''),
                      (''p/sub/c.png'', ''C''), (''p/x.txt'', ''X''), (''q/d.jpg'', ''D'')]),
      docs = Map.empty, calls = [], out = []\<rparr>"

definition w_scenario :: world where
  "w_scenario =
     \<lparr>buckets = (\<lambda>b. [(''a.jpg'', ''A''), (''b.png'', ''B'')]),
      docs = [''b.png'' \<mapsto> old_record ''b.png'', ''c.jpg'' \<mapsto> old_record ''c.jpg''],
      calls = [], out = []\<rparr>"

definition record_a :: metadata where
  "record_a =
     \<lparr>file_id = ''a.jpg'', file_name = ''a.jpg'', tags_en = [''cat'', ''dog'', ''outdoor''],
      tags_pt = [''pt-cat'', ''pt-dog'', ''pt-outdoor''],
      processed_at = ''2024-05-01T12:00:00+00:00''\<rparr>"

definition calls_a :: "call list" where
  "calls_a = [DownloadBytes ''photos'' ''a.jpg'', GenerateContent GEMINI_PROMPT (Image ''A''),
              Translate [''cat'', ''dog'', ''outdoor''] ''pt'']"

text \<open>The contract of the translation service: one answer per input, in the order of the
  inputs, each answer naming its input.\<close>

definition translation_aligned :: "env \<Rightarrow> bool" where
  "translation_aligned env \<longleftrightarrow>
     (\<forall>h tags lang ts. translate env h tags lang = Inr ts \<longrightarrow>
        length ts = length tags \<and> (\<forall>i<length tags. (ts ! i) ''input'' = Some (tags ! i)))"

definition env_silent :: env where
  "env_silent = (env_ok [])\<lparr>generate_content := (\<lambda>h img. Inr (Response (Inr [])))\<rparr>"

definition record_silent :: metadata where
  "record_silent =
     \<lparr>file_id = ''a.jpg'', file_name = ''a.jpg'', tags_en = [], tags_pt = [],
      processed_at = ''2024-05-01T12:00:00+00:00''\<rparr>"

definition after_listings :: "env \<Rightarrow> world \<Rightarrow> world" where
  "after_listings env w =
     issue StreamDocs
       (issue (ListBlobs (BUCKET_NAME env) (BUCKET_FOLDER_PATH env))
          (print_line (LogStart (GEMINI_MODEL env)) w))"

definition to_delete :: "env \<Rightarrow> world \<Rightarrow> string set" where
  "to_delete env w = dom (docs w) - present_ids env w"

definition to_create :: "env \<Rightarrow> world \<Rightarrow> string set" where
  "to_create env w = present_ids env w - dom (docs w)"

definition after_delete :: "env \<Rightarrow> world \<Rightarrow> world" where
  "after_delete env w = delete_removed env (to_delete env w) (after_listings env w)"

definition after_create :: "env \<Rightarrow> world \<Rightarrow> world" where
  "after_create env w = process_new env (to_create env w) (after_delete env w)"

definition env_store_down :: env where
  "env_store_down =
     (env_ok [])\<lparr>firestore_stream_fault := (\<lambda>h. Some (ServiceError ''unavailable''))\<rparr>"

text \<open>A bucket whose first image cannot be downloaded.\<close>

definition env_flaky :: env where
  "env_flaky =
     (env_ok [])\<lparr>storage_download_fault :=
        (\<lambda>h name. if name = ''a.jpg'' then Some (ServiceError ''timeout'') else None)\<rparr>"

definition w_two :: world where
  "w_two =
     \<lparr>buckets = (\<lambda>b. [(''a.jpg'', ''A''), (''b.png'', ''B'')]),
      docs = [''c.jpg'' \<mapsto> old_record ''c.jpg''],
      calls = [], out = []\<rparr>"

definition record_b :: metadata where
  "record_b =
     \<lparr>file_id = ''b.png'', file_name = ''b.png'', tags_en = [''cat'', ''dog'', ''outdoor''],
      tags_pt = [''pt-cat'', ''pt-dog'', ''pt-outdoor''],
      processed_at = ''2024-05-01T12:00:00+00:00''\<rparr>"

definition w_two_after :: world where
  "w_two_after =
     \<lparr>buckets = (\<lambda>b. [(''a.jpg'', ''A''), (''b.png'', ''B'')]),
      docs = [''b.png'' \<mapsto> record_b],
      calls = [ListBlobs ''photos'' [], StreamDocs, DeleteDoc ''c.jpg'',
               DownloadBytes ''photos'' ''a.jpg'',
               DownloadBytes ''photos'' ''b.png'',
               GenerateContent GEMINI_PROMPT (Image ''B''),
               Translate [''cat'', ''dog'', ''outdoor''] ''pt'',
               SetDoc ''b.png'' record_b],
      out = [LogStart ''gemini-1.5-flash'', LogDeleting 1, LogDeleted ''c.jpg'', LogNewCount 2,
             LogProcessingStart,
             LogProcessing 1 2 ''a.jpg'',
             LogProcessError ''a.jpg'' (ServiceError ''timeout''),
             LogProcessing 2 2 ''b.png'',
             LogSaved ''b.png'', LogDone]\<rparr>"

text \<open>A folder with one image in a sub-folder.\<close>

definition w_nested :: world where
  "w_nested =
     \<lparr>buckets = (\<lambda>b. [(''x/sub/a.jpg'', ''A'')]), docs = Map.empty, calls = [], out = []\<rparr>"

text \<open>A folder configured without its final slash, over objects whose names start alike.\<close>

definition w_p :: world where
  "w_p =
     \<lparr>buckets = (\<lambda>b. [(''pa.jpg'', ''A''), (''ppa.jpg'', ''B'')]),
      docs = [''ppa.jpg'' \<mapsto> old_record ''ppa.jpg''],
      calls = [], out = []\<rparr>"

definition record_p :: metadata where
  "record_p =
     \<lparr>file_id = ''ppa.jpg'', file_name = ''ppa.jpg'', tags_en = [''cat'', ''dog'', ''outdoor''],
      tags_pt = [''pt-cat'', ''pt-dog'', ''pt-outdoor''],
      processed_at = ''2024-05-01T12:00:00+00:00''\<rparr>"

definition w_p_after :: world where
  "w_p_after =
     \<lparr>buckets = (\<lambda>b. [(''pa.jpg'', ''A''), (''ppa.jpg'', ''B'')]),
      docs = [''ppa.jpg'' \<mapsto> record_p],
      calls = [ListBlobs ''photos'' ''p'', StreamDocs,
               DownloadBytes ''photos'' ''ppa.jpg'',
               GenerateContent GEMINI_PROMPT (Image ''B''),
               Translate [''cat'', ''dog'', ''outdoor''] ''pt'',
               SetDoc ''ppa.jpg'' record_p],
      out = [LogStart ''gemini-1.5-flash'', LogNoneRemoved, LogNewCount 1, LogProcessingStart,
             LogProcessing 1 1 ''ppa.jpg'', LogSaved ''ppa.jpg'', LogDone]\<rparr>"

text \<open>The world after the run of the scenario of the specification.\<close>

definition w_scenario_after :: world where
  "w_scenario_after =
     \<lparr>buckets = (\<lambda>b. [(''a.jpg'', ''A''), (''b.png'', ''B'')]),
      docs = [''b.png'' \<mapsto> old_record ''b.png'', ''a.jpg'' \<mapsto> record_a],
      calls = [ListBlobs ''photos'' [], StreamDocs, DeleteDoc ''c.jpg''] @ calls_a @
              [SetDoc ''a.jpg'' record_a],
      out = [LogStart ''gemini-1.5-flash'', LogDeleting 1, LogDeleted ''c.jpg'', LogNewCount 1,
             LogProcessingStart, LogProcessing 1 1 ''a.jpg'', LogSaved ''a.jpg'', LogDone]\<rparr>"

text \<open>The same two worlds after one more run.\<close>

definition w_p_again :: world where
  "w_p_again =
     \<lparr>buckets = (\<lambda>b. [(''pa.jpg'', ''A''), (''ppa.jpg'', ''B'')]),
      docs = [''ppa.jpg'' \<mapsto> record_p],
      calls = calls w_p_after @
              [ListBlobs ''photos'' ''p'', StreamDocs,
               DownloadBytes ''photos'' ''ppa.jpg'',
               GenerateContent GEMINI_PROMPT (Image ''B''),
               Translate [''cat'', ''dog'', ''outdoor''] ''pt'',
               SetDoc ''ppa.jpg'' record_p],
      out = out w_p_after @
            [LogStart ''gemini-1.5-flash'', LogNoneRemoved, LogNewCount 1, LogProcessingStart,
             LogProcessing 1 1 ''ppa.jpg'', LogSaved ''ppa.jpg'', LogDone]\<rparr>"

definition w_scenario_again :: world where
  "w_scenario_again =
     \<lparr>buckets = (\<lambda>b. [(''a.jpg'', ''A''), (''b.png'', ''B'')]),
      docs = [''b.png'' \<mapsto> old_record ''b.png'', ''a.jpg'' \<mapsto> record_a],
      calls = calls w_scenario_after @ [ListBlobs ''photos'' [], StreamDocs],
      out = out w_scenario_after @
            [LogStart ''gemini-1.5-flash'', LogNoneRemoved, LogNoneNew, LogDone]\<rparr>"

text \<open>The objects that the listing of lines 71-75 keeps: the listed names with an image
  extension, other than the folder itself.\<close>

definition image_objects :: "env \<Rightarrow> world \<Rightarrow> string set" where
  "image_objects env w =
     set (filter (\<lambda>n. endswith_any n [''.jpg'', ''.jpeg'', ''.png''] \<and> n \<noteq> BUCKET_FOLDER_PATH env)
            (list_blobs w (BUCKET_NAME env) (BUCKET_FOLDER_PATH env)))"

text \<open>Two images with the same base name, both in sub-folders of the folder.\<close>

definition w_collide :: world where
  "w_collide =
     \<lparr>buckets = (\<lambda>b. [(''x/s1/a.jpg'', ''A''), (''x/s2/a.jpg'', ''B'')]),
      docs = Map.empty, calls = [], out = []\<rparr>"

definition w_collide_after :: world where
  "w_collide_after =
     \<lparr>buckets = (\<lambda>b. [(''x/s1/a.jpg'', ''A''), (''x/s2/a.jpg'', ''B'')]),
      docs = Map.empty,
      calls = [ListBlobs ''photos'' ''x/'', StreamDocs, DownloadBytes ''photos'' ''x/a.jpg''],
      out = [LogStart ''gemini-1.5-flash'', LogNoneRemoved, LogNewCount 1, LogProcessingStart,
             LogProcessing 1 1 ''x/a.jpg'',
             LogProcessError ''x/a.jpg'' (ServiceError ''NotFound''), LogDone]\<rparr>"

text \<open>Two images with the same base name, one of them directly in the folder.\<close>

definition w_direct :: world where
  "w_direct =
     \<lparr>buckets = (\<lambda>b. [(''x/sub/a.jpg'', ''B''), (''x/a.jpg'', ''A'')]),
      docs = Map.empty, calls = [], out = []\<rparr>"

definition record_x :: metadata where
  "record_x =
     \<lparr>file_id = ''a.jpg'', file_name = ''x/a.jpg'', tags_en = [''cat'', ''dog'', ''outdoor''],
      tags_pt = [''pt-cat'', ''pt-dog'', ''pt-outdoor''],
      processed_at = ''2024-05-01T12:00:00+00:00''\<rparr>"

definition w_direct_after :: world where
  "w_direct_after =
     \<lparr>buckets = (\<lambda>b. [(''x/sub/a.jpg'', ''B''), (''x/a.jpg'', ''A'')]),
      docs = [''a.jpg'' \<mapsto> record_x],
      calls = [ListBlobs ''photos'' ''x/'', StreamDocs, DownloadBytes ''photos'' ''x/a.jpg'',
               GenerateContent GEMINI_PROMPT (Image ''A''),
               Translate [''cat'', ''dog'', ''outdoor''] ''pt'',
               SetDoc ''a.jpg'' record_x],
      out = [LogStart ''gemini-1.5-flash'', LogNoneRemoved, LogNewCount 1, LogProcessingStart,
             LogProcessing 1 1 ''x/a.jpg'', LogSaved ''a.jpg'', LogDone]\<rparr>"

text \<open>The world \<open>w\<close> at the moment when the calls made so far are \<open>h\<close>.\<close>

definition at_history :: "world \<Rightarrow> call list \<Rightarrow> world" where
  "at_history w h = w\<lparr>calls := h\<rparr>"

text \<open>How the identifier \<open>a\<close> to delete was handled, in terms of the outcome of its deletion
  requested after the calls \<open>h\<close>: \<open>ls\<close> are the lines printed, \<open>d\<close> and \<open>d'\<close> the documents
  before and after.\<close>

definition old_handled ::
  "env \<Rightarrow> string \<Rightarrow> call list \<Rightarrow> logline list \<Rightarrow> (string \<rightharpoonup> metadata) \<Rightarrow> (string \<rightharpoonup> metadata) \<Rightarrow> bool"
where
  "old_handled env a h ls d d' =
     (case firestore_delete_fault env h a of
        Some e \<Rightarrow> LogDeleteError a e \<in> set ls \<and> LogDeleted a \<notin> set ls \<and> d' a = d a
      | None \<Rightarrow> LogDeleted a \<in> set ls \<and> (\<forall>e. LogDeleteError a e \<notin> set ls) \<and> d' a = None)"

definition old_untouched ::
  "string \<Rightarrow> call list \<Rightarrow> logline list \<Rightarrow> (string \<rightharpoonup> metadata) \<Rightarrow> (string \<rightharpoonup> metadata) \<Rightarrow> bool"
where
  "old_untouched a cs ls d d' \<longleftrightarrow>
     DeleteDoc a \<notin> set cs \<and> LogDeleted a \<notin> set ls \<and> (\<forall>e. LogDeleteError a e \<notin> set ls) \<and>
     d' a = d a"

text \<open>How the new identifier \<open>b\<close> was handled, in terms of the outcome \<open>r\<close> of
  \<^verbatim>\<open>get_image_metadata\<close> and of the outcome of the save requested after the calls \<open>hv\<close>.\<close>

definition new_handled ::
  "env \<Rightarrow> string \<Rightarrow> error + metadata \<Rightarrow> call list \<Rightarrow> call list \<Rightarrow> logline list \<Rightarrow>
   (string \<rightharpoonup> metadata) \<Rightarrow> (string \<rightharpoonup> metadata) \<Rightarrow> bool"
where
  "new_handled env b r hv cs ls d d' =
     (case r of
        Inl e \<Rightarrow>
          LogProcessError (BUCKET_FOLDER_PATH env @ b) e \<in> set ls \<and>
          LogSaved (basename (BUCKET_FOLDER_PATH env @ b)) \<notin> set ls \<and>
          (\<forall>md. SetDoc (basename (BUCKET_FOLDER_PATH env @ b)) md \<notin> set cs) \<and>
          d' (basename (BUCKET_FOLDER_PATH env @ b)) = d (basename (BUCKET_FOLDER_PATH env @ b))
      | Inr md \<Rightarrow>
          SetDoc (basename (BUCKET_FOLDER_PATH env @ b)) md \<in> set cs \<and>
          file_name md = BUCKET_FOLDER_PATH env @ b \<and>
          file_id md = basename (BUCKET_FOLDER_PATH env @ b) \<and>
          (case firestore_set_fault env hv (basename (BUCKET_FOLDER_PATH env @ b)) md of
             Some e \<Rightarrow>
               LogProcessError (BUCKET_FOLDER_PATH env @ b) e \<in> set ls \<and>
               LogSaved (basename (BUCKET_FOLDER_PATH env @ b)) \<notin> set ls \<and>
               d' (basename (BUCKET_FOLDER_PATH env @ b)) = d (basename (BUCKET_FOLDER_PATH env @ b))
           | None \<Rightarrow>
               d' (basename (BUCKET_FOLDER_PATH env @ b)) = Some md \<and>
               LogSaved (basename (BUCKET_FOLDER_PATH env @ b)) \<in> set ls \<and>
               (\<forall>e. LogProcessError (BUCKET_FOLDER_PATH env @ b) e \<notin> set ls)))"

definition new_untouched ::
  "env \<Rightarrow> string \<Rightarrow> call list \<Rightarrow> logline list \<Rightarrow>
   (string \<rightharpoonup> metadata) \<Rightarrow> (string \<rightharpoonup> metadata) \<Rightarrow> bool"
where
  "new_untouched env b cs ls d d' \<longleftrightarrow>
     DownloadBytes (BUCKET_NAME env) (BUCKET_FOLDER_PATH env @ b) \<notin> set cs \<and>
     (\<forall>md. SetDoc (basename (BUCKET_FOLDER_PATH env @ b)) md \<notin> set cs) \<and>
     (\<forall>e. LogProcessError (BUCKET_FOLDER_PATH env @ b) e \<notin> set ls) \<and>
     LogSaved (basename (BUCKET_FOLDER_PATH env @ b)) \<notin> set ls \<and>
     d' (basename (BUCKET_FOLDER_PATH env @ b)) = d (basename (BUCKET_FOLDER_PATH env @ b))"

section \<open>Properties\<close>

subsection \<open>Strings\<close>


lemma basename_no_slash: "CHR ''/'' \<notin> set (basename p)"
  unfolding basename_def using set_takeWhileD by fastforce

lemma basename_decomp:
  "\<exists>d. p = d @ basename p \<and> (d = [] \<or> last d = CHR ''/'')"
proof -
  let ?P = "\<lambda>c. c \<noteq> CHR ''/''"
  have "rev p = takeWhile ?P (rev p) @ dropWhile ?P (rev p)" by simp
  then have "p = rev (dropWhile ?P (rev p)) @ basename p"
    unfolding basename_def by (metis rev_append rev_rev_ident)
  moreover have "dropWhile ?P (rev p) = [] \<or> \<not> ?P (hd (dropWhile ?P (rev p)))"
    using hd_dropWhile by blast
  then have "rev (dropWhile ?P (rev p)) = [] \<or> last (rev (dropWhile ?P (rev p))) = CHR ''/''"
    by (auto simp: last_rev)
  ultimately show ?thesis by blast
qed

lemma basename_append:
  "CHR ''/'' \<notin> set b \<Longrightarrow> basename (p @ b) = basename p @ b"
proof -
  assume "CHR ''/'' \<notin> set b"
  then have "takeWhile (\<lambda>c. c \<noteq> CHR ''/'') (rev b @ rev p)
               = rev b @ takeWhile (\<lambda>c. c \<noteq> CHR ''/'') (rev p)"
    by (intro takeWhile_append2) auto
  then show ?thesis unfolding basename_def by simp
qed

lemma basename_Nil_iff: "basename p = [] \<longleftrightarrow> p = [] \<or> last p = CHR ''/''"
  unfolding basename_def by (cases p rule: rev_cases) auto

lemma basename_id: "CHR ''/'' \<notin> set b \<Longrightarrow> basename b = b"
  using basename_append [of b "[]"] by (simp add: basename_def)

lemma endswith_iff: "endswith s suf \<longleftrightarrow> (\<exists>pre. s = pre @ suf)"
proof
  assume "endswith s suf"
  then have "s = take (length s - length suf) s @ suf"
    unfolding endswith_def by (metis append_take_drop_id)
  then show "\<exists>pre. s = pre @ suf" ..
next
  assume "\<exists>pre. s = pre @ suf"
  then show "endswith s suf" unfolding endswith_def by auto
qed

lemma startswith_iff: "startswith s p \<longleftrightarrow> (\<exists>rest. s = p @ rest)"
proof
  assume "startswith s p"
  then have "s = p @ drop (length p) s"
    unfolding startswith_def by (metis append_take_drop_id)
  then show "\<exists>rest. s = p @ rest" ..
next
  assume "\<exists>rest. s = p @ rest"
  then show "startswith s p" unfolding startswith_def by auto
qed

lemma endswith_any_image:
  "endswith_any s [''.jpg'', ''.jpeg'', ''.png''] \<longleftrightarrow>
     endswith s ''.jpg'' \<or> endswith s ''.jpeg'' \<or> endswith s ''.png''"
  by (simp add: endswith_any_def)

lemma endswith_append: "endswith s suf \<Longrightarrow> endswith (p @ s) suf"
  by (auto simp: endswith_iff)

lemma endswith_basename:
  assumes "endswith s suf" "CHR ''/'' \<notin> set suf"
  shows "endswith (basename s) suf"
proof -
  from assms(1) obtain pre where "s = pre @ suf" by (auto simp: endswith_iff)
  then have "basename s = basename pre @ suf" using assms(2) by (simp add: basename_append)
  then show ?thesis by (auto simp: endswith_iff)
qed

lemma endswith_any_basename:
  "endswith_any s [''.jpg'', ''.jpeg'', ''.png''] \<Longrightarrow>
   endswith_any (basename s) [''.jpg'', ''.jpeg'', ''.png'']"
  by (auto simp: endswith_any_image intro: endswith_basename)

lemma endswith_any_nonempty:
  "endswith_any s [''.jpg'', ''.jpeg'', ''.png''] \<Longrightarrow> s \<noteq> []"
  by (auto simp: endswith_any_image endswith_def)

lemma collect_files_eq:
  "collect_files fp names files =
     files \<union> basename ` {n \<in> set names. endswith_any n [''.jpg'', ''.jpeg'', ''.png''] \<and> n \<noteq> fp}"
  by (induction fp names files rule: collect_files.induct) auto

lemma split_nonempty: "split sep s \<noteq> []"
  by (induction s) (auto split: list.splits)

lemma join_Cons: "segs \<noteq> [] \<Longrightarrow> join sep (seg # segs) = seg @ sep # join sep segs"
  by (cases segs) auto

lemma join_split: "join sep (split sep s) = s"
proof (induction s)
  case Nil
  then show ?case by simp
next
  case (Cons c cs)
  obtain seg segs where sp: "split sep cs = seg # segs"
    using split_nonempty [of sep cs] by (cases "split sep cs") auto
  show ?case
  proof (cases "c = sep")
    case True
    then show ?thesis using Cons split_nonempty [of sep cs] by (simp add: join_Cons)
  next
    case False
    then show ?thesis using Cons sp by (cases segs) auto
  qed
qed

lemma split_no_sep: "seg \<in> set (split sep s) \<Longrightarrow> sep \<notin> set seg"
proof (induction s arbitrary: seg)
  case Nil
  then show ?case by simp
next
  case (Cons c cs)
  then show ?case by (auto split: if_splits list.splits)
qed

lemma split_append_no_sep:
  "sep \<notin> set seg \<Longrightarrow> split sep (seg @ sep # rest) = seg # split sep rest"
  by (induction seg) auto

lemma split_no_sep_single: "sep \<notin> set seg \<Longrightarrow> split sep seg = [seg]"
  by (induction seg) auto

lemma split_join:
  "segs \<noteq> [] \<Longrightarrow> \<forall>seg\<in>set segs. sep \<notin> set seg \<Longrightarrow> split sep (join sep segs) = segs"
proof (induction segs rule: join.induct[where ?a0.0 = sep])
  case (1 sep)
  then show ?case by simp
next
  case (2 sep seg)
  then show ?case by (simp add: split_no_sep_single)
next
  case (3 sep seg v va)
  then show ?case by (simp add: split_append_no_sep)
qed

lemma strip_decomp:
  "\<exists>a b. s = a @ strip s @ b \<and> (\<forall>c\<in>set a. isspace c) \<and> (\<forall>c\<in>set b. isspace c)"
proof -
  let ?t = "dropWhile isspace s"
  have 1: "s = takeWhile isspace s @ ?t" by simp
  have "rev ?t = takeWhile isspace (rev ?t) @ dropWhile isspace (rev ?t)" by simp
  then have 2: "?t = strip s @ rev (takeWhile isspace (rev ?t))"
    unfolding strip_def by (metis rev_append rev_rev_ident)
  have 3: "\<forall>c\<in>set (takeWhile isspace s). isspace c" by (auto dest: set_takeWhileD)
  have 4: "\<forall>c\<in>set (rev (takeWhile isspace (rev ?t))). isspace c" by (auto dest: set_takeWhileD)
  from 1 2 have "s = takeWhile isspace s @ strip s @ rev (takeWhile isspace (rev ?t))" by simp
  with 3 4 show ?thesis by blast
qed

lemma strip_last: "strip s \<noteq> [] \<Longrightarrow> \<not> isspace (last (strip s))"
  unfolding strip_def using hd_dropWhile [of isspace "rev (dropWhile isspace s)"]
  by (simp add: last_rev)

lemma strip_tail:
  "dropWhile isspace s = strip s @ rev (takeWhile isspace (rev (dropWhile isspace s)))"
proof -
  let ?t = "dropWhile isspace s"
  have "rev ?t = takeWhile isspace (rev ?t) @ dropWhile isspace (rev ?t)" by simp
  then show ?thesis unfolding strip_def by (metis rev_append rev_rev_ident)
qed

lemma strip_hd: "strip s \<noteq> [] \<Longrightarrow> \<not> isspace (hd (strip s))"
proof -
  assume ne: "strip s \<noteq> []"
  let ?t = "dropWhile isspace s"
  have "?t = [] \<Longrightarrow> strip s = []"
    unfolding strip_def by (simp only: rev.simps dropWhile.simps)
  with ne have tne: "?t \<noteq> []" by blast
  then have h: "\<not> isspace (hd ?t)" using hd_dropWhile by blast
  from ne have "hd ?t = hd (strip s)" using strip_tail [of s] by (metis hd_append2)
  with h show ?thesis by simp
qed

lemma parse_tags_eq:
  "parse_tags txt = filter (\<lambda>t. t \<noteq> []) (map strip (split CHR '','' txt))"
  unfolding parse_tags_def by (simp add: filter_map comp_def)

lemma all_tags_en_of_eq:
  "all_tags_en_of txt = filter (\<lambda>t. t \<noteq> []) (map strip (split CHR '','' txt))"
  unfolding all_tags_en_of_def by (simp add: parse_tags_eq strip_def)

subsection \<open>The effect of each operation\<close>

lemma issue_simps [simp]:
  "calls (issue c w) = calls w @ [c]" "out (issue c w) = out w"
  "docs (issue c w) = docs w" "buckets (issue c w) = buckets w"
  by (simp_all add: issue_def)

lemma print_line_simps [simp]:
  "calls (print_line l w) = calls w" "out (print_line l w) = out w @ [l]"
  "docs (print_line l w) = docs w" "buckets (print_line l w) = buckets w"
  by (simp_all add: print_line_def)

lemma extends_refl [simp]: "extends w w"
  by (simp add: extends_def)

lemma extends_trans: "extends w w' \<Longrightarrow> extends w' w'' \<Longrightarrow> extends w w''"
  by (auto simp: extends_def)

lemma extends_issue [simp]: "extends w (issue c w)"
  by (simp add: extends_def)

lemma extends_print_line [simp]: "extends w (print_line l w)"
  by (simp add: extends_def)

lemma extends_calls: "extends w w' \<Longrightarrow> calls w' = calls w @ run_calls w w'"
  by (auto simp: extends_def run_calls_def)

lemma extends_out: "extends w w' \<Longrightarrow> out w' = out w @ run_out w w'"
  by (auto simp: extends_def run_out_def)

lemma extends_buckets: "extends w w' \<Longrightarrow> buckets w' = buckets w"
  by (simp add: extends_def)

lemma run_calls_trans:
  "extends w w' \<Longrightarrow> extends w' w'' \<Longrightarrow> run_calls w w'' = run_calls w w' @ run_calls w' w''"
  by (auto simp: extends_def run_calls_def)

lemma run_out_trans:
  "extends w w' \<Longrightarrow> extends w' w'' \<Longrightarrow> run_out w w'' = run_out w w' @ run_out w' w''"
  by (auto simp: extends_def run_out_def)

lemma run_self [simp]: "run_calls w w = []" "run_out w w = []"
  by (simp_all add: run_calls_def run_out_def)

lemma run_issue [simp]: "run_calls w (issue c w) = [c]" "run_out w (issue c w) = []"
  by (simp_all add: run_calls_def run_out_def)

lemma run_print_line [simp]: "run_calls w (print_line l w) = []" "run_out w (print_line l w) = [l]"
  by (simp_all add: run_calls_def run_out_def)

lemma download_as_bytes_effect:
  assumes "download_as_bytes env p w = (r, w')"
  shows "w' = issue (DownloadBytes (BUCKET_NAME env) p) w"
    and "r = Inr content \<Longrightarrow> map_of (buckets w (BUCKET_NAME env)) p = Some content"
  using assms by (auto simp: download_as_bytes_def Let_def split: option.splits)

lemma call_gemini_effect:
  assumes "call_gemini env img w = (r, w')"
  shows "extends w w'" and "docs w' = docs w"
    and "run_calls w w' = [GenerateContent GEMINI_PROMPT img]"
    and "r = Inr resp \<Longrightarrow> run_out w w' = [] \<and> generate_content env (calls w) img = Inr resp"
    and "r = Inl e \<Longrightarrow> run_out w w' = [LogGeminiError e]"
  using assms
  by (auto simp: call_gemini_def Let_def extends_def run_calls_def run_out_def split: sum.splits)

lemma translated_texts_Inr:
  "translated_texts ts = Inr ss \<Longrightarrow> map (\<lambda>t. t ''translatedText'') ts = map Some ss"
  by (induction ts arbitrary: ss) (auto split: option.splits sum.splits)

lemma translate_tags_effect:
  assumes "translate_tags env tags w = (r, w')"
  shows "extends w w'" and "docs w' = docs w" and "run_out w w' = []"
    and "run_calls w w' = (if tags \<noteq> [] then [Translate tags ''pt''] else [])"
    and "tags = [] \<Longrightarrow> r = Inr []"
    and "tags \<noteq> [] \<Longrightarrow> r = Inr pt \<Longrightarrow>
           \<exists>ts. translate env (calls w) tags ''pt'' = Inr ts \<and> translated_texts ts = Inr pt"
  using assms
  by (auto simp: translate_tags_def Let_def extends_def run_calls_def run_out_def
      split: sum.splits if_splits)

lemma gim_success:
  assumes "get_image_metadata env p w = (Inr md, w')"
  shows "\<exists>content img resp txt.
      map_of (buckets w (BUCKET_NAME env)) p = Some content \<and>
      image_open env content = Inr img \<and>
      generate_content env (calls w @ [DownloadBytes (BUCKET_NAME env) p]) img = Inr resp \<and>
      response_text resp = Inr txt \<and>
      tags_en md = all_tags_en_of txt \<and>
      file_id md = basename p \<and> file_name md = p \<and>
      run_out w w' = [] \<and>
      run_calls w w' =
        [DownloadBytes (BUCKET_NAME env) p, GenerateContent GEMINI_PROMPT img]
        @ (if tags_en md \<noteq> [] then [Translate (tags_en md) ''pt''] else []) \<and>
      (tags_en md = [] \<longrightarrow> tags_pt md = []) \<and>
      (tags_en md \<noteq> [] \<longrightarrow>
         (\<exists>ts. translate env (calls w @ [DownloadBytes (BUCKET_NAME env) p,
                                           GenerateContent GEMINI_PROMPT img])
                  (tags_en md) ''pt'' = Inr ts \<and> translated_texts ts = Inr (tags_pt md)))"
  using assms
  by (auto simp: get_image_metadata_def download_as_bytes_def call_gemini_def translate_tags_def
        Let_def run_calls_def run_out_def
      split: sum.splits option.splits prod.splits if_splits)

lemma gim_frame:
  assumes "get_image_metadata env p w = (r, w')"
  shows "extends w w' \<and> docs w' = docs w \<and>
     (\<exists>cs. run_calls w w' = DownloadBytes (BUCKET_NAME env) p # cs \<and>
           (\<forall>c\<in>set cs. is_generate c \<or> is_translate c)) \<and>
     (\<forall>l\<in>set (run_out w w'). \<exists>e. l = LogGeminiError e)"
  using assms
  by (auto simp: get_image_metadata_def download_as_bytes_def call_gemini_def translate_tags_def
        Let_def run_calls_def run_out_def extends_def
      split: sum.splits option.splits prod.splits if_splits)

lemma save_effect:
  assumes "save_metadata_to_firestore env md w = (r, w')"
  shows "extends w w' \<and> run_calls w w' = [SetDoc (file_id md) md] \<and>
     (case r of
        Inr u \<Rightarrow> docs w' = (docs w)(file_id md \<mapsto> md) \<and> run_out w w' = [LogSaved (file_id md)]
      | Inl e \<Rightarrow> docs w' = docs w \<and> run_out w w' = [])"
  using assms
  by (auto simp: save_metadata_to_firestore_def Let_def run_calls_def run_out_def extends_def
      split: option.splits)

text \<open>What one iteration of the loop over the new images does.\<close>

lemma process_one_effect:
  fixes env n i fid w
  defines "p \<equiv> BUCKET_FOLDER_PATH env @ fid"
  defines "w' \<equiv> process_one env n i fid w"
  shows "extends w w' \<and>
     (\<exists>cs. run_calls w w' = DownloadBytes (BUCKET_NAME env) p # cs \<and>
        (\<forall>c\<in>set cs. is_generate c \<or> is_translate c \<or>
           (\<exists>md. c = SetDoc (basename p) md \<and> file_name md = p \<and> file_id md = basename p
                 \<and> map_of (buckets w (BUCKET_NAME env)) p \<noteq> None))) \<and>
     (\<exists>ls. run_out w w' = LogProcessing i n p # ls \<and>
        (((\<exists>e. LogProcessError p e \<in> set ls) \<and> docs w' = docs w) \<or>
         ((\<forall>l\<in>set ls. \<not> is_error_line l) \<and>
          (\<exists>md. docs w' = (docs w)(basename p \<mapsto> md) \<and> file_name md = p \<and>
                file_id md = basename p \<and> map_of (buckets w (BUCKET_NAME env)) p \<noteq> None))))"
proof -
  let ?w1 = "print_line (LogProcessing i n p) w"
  obtain r w2 where g: "get_image_metadata env p ?w1 = (r, w2)" by (cases "get_image_metadata env p ?w1")
  note gf = gim_frame [OF g]
  from gf have e12: "extends ?w1 w2" and d12: "docs w2 = docs w" by auto
  from gf obtain cs where cs: "run_calls ?w1 w2 = DownloadBytes (BUCKET_NAME env) p # cs"
    "\<forall>c\<in>set cs. is_generate c \<or> is_translate c" by auto
  from gf have o12: "\<forall>l\<in>set (run_out ?w1 w2). \<exists>e. l = LogGeminiError e" by auto
  have e01: "extends w ?w1" by simp
  have e02: "extends w w2" using e01 e12 by (rule extends_trans)
  have c02: "run_calls w w2 = DownloadBytes (BUCKET_NAME env) p # cs"
    using run_calls_trans [OF e01 e12] cs by simp
  have o02: "run_out w w2 = LogProcessing i n p # run_out ?w1 w2"
    using run_out_trans [OF e01 e12] by simp
  show ?thesis
  proof (cases r)
    case (Inl e)
    then have w': "w' = print_line (LogProcessError p e) w2"
      using g by (simp add: w'_def process_one_def p_def Let_def)
    have e23: "extends w2 w'" by (simp add: w')
    have "extends w w'" using e02 e23 by (rule extends_trans)
    moreover have "run_calls w w' = DownloadBytes (BUCKET_NAME env) p # cs"
      using run_calls_trans [OF e02 e23] c02 by (simp add: w')
    moreover have "run_out w w' = LogProcessing i n p # (run_out ?w1 w2 @ [LogProcessError p e])"
      using run_out_trans [OF e02 e23] o02 by (simp add: w')
    moreover have "docs w' = docs w" using d12 by (simp add: w')
    ultimately show ?thesis using cs(2) by auto
  next
    case (Inr md)
    with g have gs: "get_image_metadata env p ?w1 = (Inr md, w2)" by simp
    from gim_success [OF gs] have md: "file_id md = basename p" "file_name md = p"
      "map_of (buckets w (BUCKET_NAME env)) p \<noteq> None" "run_out ?w1 w2 = []" by auto
    obtain r3 w3 where s: "save_metadata_to_firestore env md w2 = (r3, w3)"
      by (cases "save_metadata_to_firestore env md w2")
    note sf = save_effect [OF s]
    from sf have e23: "extends w2 w3" and c23: "run_calls w2 w3 = [SetDoc (basename p) md]"
      using md by auto
    have e03: "extends w w3" using e02 e23 by (rule extends_trans)
    have c03: "run_calls w w3 = DownloadBytes (BUCKET_NAME env) p # (cs @ [SetDoc (basename p) md])"
      using run_calls_trans [OF e02 e23] c02 c23 by simp
    have o03: "run_out w w3 = LogProcessing i n p # run_out w2 w3"
      using run_out_trans [OF e02 e23] o02 md(4) by simp
    show ?thesis
    proof (cases r3)
      case (Inl e)
      then have w': "w' = print_line (LogProcessError p e) w3"
        using gs s by (simp add: w'_def process_one_def p_def Let_def)
      have e34: "extends w3 w'" by (simp add: w')
      have "extends w w'" using e03 e34 by (rule extends_trans)
      moreover have "run_calls w w' = DownloadBytes (BUCKET_NAME env) p # (cs @ [SetDoc (basename p) md])"
        using run_calls_trans [OF e03 e34] c03 by (simp add: w')
      moreover have "run_out w w' = LogProcessing i n p # [LogProcessError p e]"
        using run_out_trans [OF e03 e34] o03 sf Inl by (simp add: w')
      moreover have "docs w' = docs w" using d12 sf Inl by (simp add: w')
      ultimately show ?thesis using cs(2) md by auto
    next
      case (Inr u)
      then have w': "w' = w3"
        using gs s by (simp add: w'_def process_one_def p_def Let_def)
      have "run_out w w' = LogProcessing i n p # [LogSaved (basename p)]"
        using o03 sf Inr md by (simp add: w')
      moreover have "docs w' = (docs w)(basename p \<mapsto> md)" using d12 sf Inr md by (simp add: w')
      ultimately show ?thesis using cs(2) md e03 c03 unfolding w' by auto
    qed
  qed
qed

lemma document_delete_effect:
  assumes "document_delete env d w = (r, w')"
  shows "extends w w' \<and> run_calls w w' = [DeleteDoc d] \<and> run_out w w' = [] \<and>
     (case r of Inr u \<Rightarrow> docs w' = (docs w)(d := None) | Inl e \<Rightarrow> docs w' = docs w)"
  using assms
  by (auto simp: document_delete_def Let_def run_calls_def run_out_def extends_def
      split: option.splits)

lemma delete_loop_Cons: "delete_loop env (fid # rest) w = delete_loop env rest (delete_one env fid w)"
  by simp

lemma delete_one_effect:
  "extends w (delete_one env d w) \<and> run_calls w (delete_one env d w) = [DeleteDoc d] \<and>
   ((\<exists>e. run_out w (delete_one env d w) = [LogDeleteError d e] \<and> docs (delete_one env d w) = docs w) \<or>
    (run_out w (delete_one env d w) = [LogDeleted d] \<and> docs (delete_one env d w) = (docs w)(d := None)))"
proof -
  obtain r w1 where dd: "document_delete env d w = (r, w1)" by (cases "document_delete env d w")
  note df = document_delete_effect [OF dd]
  from df have e01: "extends w w1" by simp
  show ?thesis
  proof (cases r)
    case (Inl e)
    then have w': "delete_one env d w = print_line (LogDeleteError d e) w1"
      using dd by (simp add: delete_one_def)
    have e12: "extends w1 (print_line (LogDeleteError d e) w1)" by simp
    show ?thesis unfolding w'
      using extends_trans [OF e01 e12] run_calls_trans [OF e01 e12] run_out_trans [OF e01 e12] df Inl
      by simp
  next
    case (Inr u)
    then have w': "delete_one env d w = print_line (LogDeleted d) w1"
      using dd by (simp add: delete_one_def)
    have e12: "extends w1 (print_line (LogDeleted d) w1)" by simp
    show ?thesis unfolding w'
      using extends_trans [OF e01 e12] run_calls_trans [OF e01 e12] run_out_trans [OF e01 e12] df Inr
      by simp
  qed
qed

lemma delete_loop_extends: "extends w (delete_loop env ids w)"
proof (induction ids arbitrary: w)
  case Nil
  then show ?case by simp
next
  case (Cons d ids)
  show ?case unfolding delete_loop_Cons
    using extends_trans [OF _ Cons [of "delete_one env d w"]] delete_one_effect [of w env d] by blast
qed

lemma delete_loop_calls: "run_calls w (delete_loop env ids w) = map DeleteDoc ids"
proof (induction ids arbitrary: w)
  case Nil
  then show ?case by simp
next
  case (Cons d ids)
  have e1: "extends w (delete_one env d w)" using delete_one_effect by blast
  show ?case unfolding delete_loop_Cons
    using run_calls_trans [OF e1 delete_loop_extends [of "delete_one env d w" env ids]]
      Cons [of "delete_one env d w"] delete_one_effect [of w env d] by simp
qed

lemma delete_loop_docs:
  "docs (delete_loop env ids w) k = docs w k \<or> (k \<in> set ids \<and> docs (delete_loop env ids w) k = None)"
proof (induction ids arbitrary: w)
  case Nil
  then show ?case by simp
next
  case (Cons d ids)
  show ?case unfolding delete_loop_Cons
    using Cons [of "delete_one env d w"] delete_one_effect [of w env d] by (auto split: if_splits)
qed

lemma delete_loop_each:
  "a \<in> set ids \<Longrightarrow>
     (\<exists>e. LogDeleteError a e \<in> set (run_out w (delete_loop env ids w))) \<or>
     docs (delete_loop env ids w) a = None"
proof (induction ids arbitrary: w)
  case Nil
  then show ?case by simp
next
  case (Cons d ids)
  let ?w1 = "delete_one env d w"
  have e1: "extends w ?w1" using delete_one_effect by blast
  have ro: "run_out w (delete_loop env ids ?w1) = run_out w ?w1 @ run_out ?w1 (delete_loop env ids ?w1)"
    using run_out_trans [OF e1 delete_loop_extends] .
  show ?case
  proof (cases "a \<in> set ids")
    case True
    from Cons.IH [OF True, of ?w1] show ?thesis unfolding delete_loop_Cons ro by auto
  next
    case False
    with Cons.prems have [simp]: "a = d" by simp
    from delete_loop_docs [of env ids ?w1 d] False
    have same: "docs (delete_loop env ids ?w1) d = docs ?w1 d" by simp
    from delete_one_effect [of w env d] same show ?thesis unfolding delete_loop_Cons ro by auto
  qed
qed

lemma delete_loop_clean:
  "\<forall>l\<in>set (run_out w (delete_loop env ids w)). \<not> is_error_line l \<Longrightarrow>
   docs (delete_loop env ids w) = (\<lambda>k. if k \<in> set ids then None else docs w k)"
proof (induction ids arbitrary: w)
  case Nil
  then show ?case by simp
next
  case (Cons d ids)
  let ?w1 = "delete_one env d w"
  have e1: "extends w ?w1" using delete_one_effect by blast
  have ro: "run_out w (delete_loop env ids ?w1) = run_out w ?w1 @ run_out ?w1 (delete_loop env ids ?w1)"
    using run_out_trans [OF e1 delete_loop_extends] .
  from Cons.prems have 1: "\<forall>l\<in>set (run_out w ?w1). \<not> is_error_line l"
    and 2: "\<forall>l\<in>set (run_out ?w1 (delete_loop env ids ?w1)). \<not> is_error_line l"
    unfolding delete_loop_Cons ro by auto
  from 1 delete_one_effect [of w env d] have d1: "docs ?w1 = (docs w)(d := None)" by auto
  show ?case unfolding delete_loop_Cons Cons.IH [OF 2] d1 by auto
qed

lemma not_download:
  "is_generate c \<Longrightarrow> \<not> is_download c" "is_translate c \<Longrightarrow> \<not> is_download c"
  by (cases c; simp)+

lemma process_one_extends: "extends w (process_one env n i fid w)"
  using process_one_effect [of w env n i fid] by (elim conjE)

lemma process_one_calls:
  "\<exists>cs. run_calls w (process_one env n i fid w) =
          DownloadBytes (BUCKET_NAME env) (BUCKET_FOLDER_PATH env @ fid) # cs \<and>
        (\<forall>c\<in>set cs. is_generate c \<or> is_translate c \<or>
           (\<exists>md. c = SetDoc (basename (BUCKET_FOLDER_PATH env @ fid)) md \<and>
                 file_name md = BUCKET_FOLDER_PATH env @ fid \<and>
                 file_id md = basename (BUCKET_FOLDER_PATH env @ fid) \<and>
                 map_of (buckets w (BUCKET_NAME env)) (BUCKET_FOLDER_PATH env @ fid) \<noteq> None))"
  using process_one_effect [of w env n i fid] by (elim conjE)

lemma process_one_out:
  "\<exists>ls. run_out w (process_one env n i fid w) =
          LogProcessing i n (BUCKET_FOLDER_PATH env @ fid) # ls \<and>
        (((\<exists>e. LogProcessError (BUCKET_FOLDER_PATH env @ fid) e \<in> set ls) \<and>
            docs (process_one env n i fid w) = docs w) \<or>
         ((\<forall>l\<in>set ls. \<not> is_error_line l) \<and>
          (\<exists>md. docs (process_one env n i fid w) =
                  (docs w)(basename (BUCKET_FOLDER_PATH env @ fid) \<mapsto> md) \<and>
                file_name md = BUCKET_FOLDER_PATH env @ fid \<and>
                file_id md = basename (BUCKET_FOLDER_PATH env @ fid) \<and>
                map_of (buckets w (BUCKET_NAME env)) (BUCKET_FOLDER_PATH env @ fid) \<noteq> None)))"
  using process_one_effect [of w env n i fid] by (elim conjE)

lemma process_loop_extends: "extends w (process_loop env n i ids w)"
proof (induction ids arbitrary: w i)
  case Nil
  then show ?case by simp
next
  case (Cons fid ids)
  show ?case
    using extends_trans [OF process_one_extends Cons [of "process_one env n i fid w" "Suc i"]]
    by simp
qed

lemma process_loop_run_calls:
  "run_calls w (process_loop env n i (fid # ids) w) =
     run_calls w (process_one env n i fid w) @
     run_calls (process_one env n i fid w) (process_loop env n (Suc i) ids (process_one env n i fid w))"
  using run_calls_trans [OF process_one_extends process_loop_extends] by simp

lemma process_loop_run_out:
  "run_out w (process_loop env n i (fid # ids) w) =
     run_out w (process_one env n i fid w) @
     run_out (process_one env n i fid w) (process_loop env n (Suc i) ids (process_one env n i fid w))"
  using run_out_trans [OF process_one_extends process_loop_extends] by simp

lemma process_loop_downloads:
  "filter is_download (run_calls w (process_loop env n i ids w)) =
     map (\<lambda>fid. DownloadBytes (BUCKET_NAME env) (BUCKET_FOLDER_PATH env @ fid)) ids"
proof (induction ids arbitrary: w i)
  case Nil
  then show ?case by simp
next
  case (Cons fid ids)
  from process_one_calls [of w env n i fid] obtain cs where
    cs: "run_calls w (process_one env n i fid w) =
           DownloadBytes (BUCKET_NAME env) (BUCKET_FOLDER_PATH env @ fid) # cs"
    and ty: "\<forall>c\<in>set cs. is_generate c \<or> is_translate c \<or>
           (\<exists>md. c = SetDoc (basename (BUCKET_FOLDER_PATH env @ fid)) md \<and>
                 file_name md = BUCKET_FOLDER_PATH env @ fid \<and>
                 file_id md = basename (BUCKET_FOLDER_PATH env @ fid) \<and>
                 map_of (buckets w (BUCKET_NAME env)) (BUCKET_FOLDER_PATH env @ fid) \<noteq> None)"
    by blast
  have "\<not> is_download c" if "c \<in> set cs" for c
    using ty that not_download by fastforce
  then have "filter is_download cs = []" by (simp add: filter_empty_conv)
  then show ?case unfolding process_loop_run_calls using cs Cons by simp
qed

lemma process_one_calls':
  "\<exists>cs. run_calls w (process_one env n i fid w) =
          DownloadBytes (BUCKET_NAME env) (BUCKET_FOLDER_PATH env @ fid) # cs \<and>
        (\<forall>c\<in>set cs. is_generate c \<or> is_translate c \<or>
           (\<exists>md. c = SetDoc (basename (BUCKET_FOLDER_PATH env @ fid)) md \<and> record_of env w fid md))"
  using process_one_calls [of w env n i fid] unfolding record_of_def by blast

lemma process_one_out':
  "\<exists>ls. run_out w (process_one env n i fid w) =
          LogProcessing i n (BUCKET_FOLDER_PATH env @ fid) # ls \<and>
        (((\<exists>e. LogProcessError (BUCKET_FOLDER_PATH env @ fid) e \<in> set ls) \<and>
            docs (process_one env n i fid w) = docs w) \<or>
         ((\<forall>l\<in>set ls. \<not> is_error_line l) \<and>
          (\<exists>md. docs (process_one env n i fid w) =
                  (docs w)(basename (BUCKET_FOLDER_PATH env @ fid) \<mapsto> md) \<and>
                record_of env w fid md)))"
  using process_one_out [of w env n i fid] unfolding record_of_def by blast

lemma process_one_docs:
  "docs (process_one env n i fid w) = docs w \<or>
   (\<exists>md. docs (process_one env n i fid w) =
           (docs w)(basename (BUCKET_FOLDER_PATH env @ fid) \<mapsto> md) \<and> record_of env w fid md)"
  using process_one_out' [of w env n i fid] by blast

lemma record_of_buckets: "buckets w' = buckets w \<Longrightarrow> record_of env w' fid md = record_of env w fid md"
  by (simp add: record_of_def)

lemma process_loop_calls:
  "c \<in> set (run_calls w (process_loop env n i ids w)) \<Longrightarrow>
     is_download c \<or> is_generate c \<or> is_translate c \<or>
     (\<exists>fid\<in>set ids. \<exists>md. c = SetDoc (basename (BUCKET_FOLDER_PATH env @ fid)) md \<and>
        record_of env w fid md)"
proof (induction ids arbitrary: w i)
  case Nil
  then show ?case by simp
next
  case (Cons fid ids)
  let ?w1 = "process_one env n i fid w"
  have b: "buckets ?w1 = buckets w" using process_one_extends by (rule extends_buckets)
  from Cons.prems consider "c \<in> set (run_calls w ?w1)"
    | "c \<in> set (run_calls ?w1 (process_loop env n (Suc i) ids ?w1))"
    unfolding process_loop_run_calls by auto
  then show ?case
  proof cases
    case 1
    from process_one_calls' [of w env n i fid] obtain cs where
      cs: "run_calls w ?w1 = DownloadBytes (BUCKET_NAME env) (BUCKET_FOLDER_PATH env @ fid) # cs"
      and ty: "\<forall>c\<in>set cs. is_generate c \<or> is_translate c \<or>
           (\<exists>md. c = SetDoc (basename (BUCKET_FOLDER_PATH env @ fid)) md \<and> record_of env w fid md)"
      by blast
    from 1 cs have "c = DownloadBytes (BUCKET_NAME env) (BUCKET_FOLDER_PATH env @ fid) \<or> c \<in> set cs"
      by simp
    then show ?thesis
    proof
      assume "c = DownloadBytes (BUCKET_NAME env) (BUCKET_FOLDER_PATH env @ fid)"
      then show ?thesis by simp
    next
      assume "c \<in> set cs"
      with ty have "is_generate c \<or> is_translate c \<or>
           (\<exists>md. c = SetDoc (basename (BUCKET_FOLDER_PATH env @ fid)) md \<and> record_of env w fid md)"
        by blast
      then show ?thesis by auto
    qed
  next
    case 2
    from Cons.IH [OF 2] show ?thesis unfolding record_of_buckets [OF b] by auto
  qed
qed

lemma process_loop_docs:
  "docs (process_loop env n i ids w) k = docs w k \<or>
     (\<exists>fid\<in>set ids. \<exists>md. k = basename (BUCKET_FOLDER_PATH env @ fid) \<and>
        docs (process_loop env n i ids w) k = Some md \<and> record_of env w fid md)"
proof (induction ids arbitrary: w i)
  case Nil
  then show ?case by simp
next
  case (Cons fid ids)
  let ?w1 = "process_one env n i fid w"
  let ?w' = "process_loop env n (Suc i) ids ?w1"
  have b: "buckets ?w1 = buckets w" using process_one_extends by (rule extends_buckets)
  have w': "process_loop env n i (fid # ids) w = ?w'" by simp
  from Cons [of "Suc i" ?w1] have
    "docs ?w' k = docs ?w1 k \<or>
     (\<exists>f\<in>set ids. \<exists>md. k = basename (BUCKET_FOLDER_PATH env @ f) \<and>
        docs ?w' k = Some md \<and> record_of env w f md)"
    unfolding record_of_buckets [OF b] .
  then show ?case
  proof
    assume same: "docs ?w' k = docs ?w1 k"
    from process_one_docs [of env n i fid w] show ?thesis
    proof
      assume "docs ?w1 = docs w"
      with same show ?thesis unfolding w' by simp
    next
      assume "\<exists>md. docs ?w1 = (docs w)(basename (BUCKET_FOLDER_PATH env @ fid) \<mapsto> md) \<and>
                record_of env w fid md"
      then obtain md where md: "docs ?w1 = (docs w)(basename (BUCKET_FOLDER_PATH env @ fid) \<mapsto> md)"
        "record_of env w fid md" by blast
      show ?thesis
      proof (cases "k = basename (BUCKET_FOLDER_PATH env @ fid)")
        case True
        with same md show ?thesis unfolding w' by auto
      next
        case False
        with same md show ?thesis unfolding w' by simp
      qed
    qed
  next
    assume "\<exists>f\<in>set ids. \<exists>md. k = basename (BUCKET_FOLDER_PATH env @ f) \<and>
        docs ?w' k = Some md \<and> record_of env w f md"
    then show ?thesis unfolding w' by auto
  qed
qed

lemma process_loop_each:
  assumes "distinct ids"
    and "inj_on (\<lambda>f. basename (BUCKET_FOLDER_PATH env @ f)) (set ids)"
    and "b \<in> set ids"
  shows "(\<exists>e. LogProcessError (BUCKET_FOLDER_PATH env @ b) e
              \<in> set (run_out w (process_loop env n i ids w))) \<or>
         (\<exists>md. docs (process_loop env n i ids w) (basename (BUCKET_FOLDER_PATH env @ b)) = Some md \<and>
               record_of env w b md)"
  using assms
proof (induction ids arbitrary: w i)
  case Nil
  then show ?case by simp
next
  case (Cons fid ids)
  let ?key = "\<lambda>f. basename (BUCKET_FOLDER_PATH env @ f)"
  let ?w1 = "process_one env n i fid w"
  let ?w' = "process_loop env n (Suc i) ids ?w1"
  have bk: "buckets ?w1 = buckets w" using process_one_extends by (rule extends_buckets)
  have w': "process_loop env n i (fid # ids) w = ?w'" by simp
  have ro: "run_out w ?w' = run_out w ?w1 @ run_out ?w1 ?w'"
    using process_loop_run_out [of w env n i fid ids] by simp
  from Cons.prems have d: "distinct ids" and inj: "inj_on ?key (set ids)"
    by (auto simp: inj_on_def)
  show ?case
  proof (cases "b \<in> set ids")
    case True
    from Cons.IH [OF d inj True, of ?w1 "Suc i"] show ?thesis
      unfolding w' ro record_of_buckets [OF bk] by auto
  next
    case False
    with Cons.prems have bf: "b = fid" by simp
    from process_one_out' [of w env n i fid] obtain ls where
      ls: "run_out w ?w1 = LogProcessing i n (BUCKET_FOLDER_PATH env @ fid) # ls"
      and alt: "((\<exists>e. LogProcessError (BUCKET_FOLDER_PATH env @ fid) e \<in> set ls) \<and> docs ?w1 = docs w) \<or>
         ((\<forall>l\<in>set ls. \<not> is_error_line l) \<and>
          (\<exists>md. docs ?w1 = (docs w)(?key fid \<mapsto> md) \<and> record_of env w fid md))"
      by blast
    from alt show ?thesis
    proof
      assume "(\<exists>e. LogProcessError (BUCKET_FOLDER_PATH env @ fid) e \<in> set ls) \<and> docs ?w1 = docs w"
      then show ?thesis unfolding w' ro ls bf by auto
    next
      assume "(\<forall>l\<in>set ls. \<not> is_error_line l) \<and>
          (\<exists>md. docs ?w1 = (docs w)(?key fid \<mapsto> md) \<and> record_of env w fid md)"
      then obtain md where md: "docs ?w1 = (docs w)(?key fid \<mapsto> md)" "record_of env w fid md"
        by blast
      have "docs ?w' (?key fid) = docs ?w1 (?key fid)"
      proof -
        from process_loop_docs [of env n "Suc i" ids ?w1 "?key fid"]
        have "docs ?w' (?key fid) = docs ?w1 (?key fid) \<or> (\<exists>f\<in>set ids. ?key fid = ?key f)"
          by blast
        moreover have "\<not> (\<exists>f\<in>set ids. ?key fid = ?key f)"
        proof
          assume "\<exists>f\<in>set ids. ?key fid = ?key f"
          then obtain f where f: "f \<in> set ids" "?key fid = ?key f" by blast
          with Cons.prems(2) have "fid = f" by (auto simp: inj_on_def)
          with f(1) Cons.prems(1) show False by simp
        qed
        ultimately show ?thesis by blast
      qed
      with md show ?thesis unfolding w' bf by simp
    qed
  qed
qed

lemma process_loop_clean:
  assumes "\<forall>l\<in>set (run_out w (process_loop env n i ids w)). \<not> is_error_line l"
  shows "dom (docs (process_loop env n i ids w)) =
           dom (docs w) \<union> (\<lambda>f. basename (BUCKET_FOLDER_PATH env @ f)) ` set ids"
  using assms
proof (induction ids arbitrary: w i)
  case Nil
  then show ?case by simp
next
  case (Cons fid ids)
  let ?key = "\<lambda>f. basename (BUCKET_FOLDER_PATH env @ f)"
  let ?w1 = "process_one env n i fid w"
  let ?w' = "process_loop env n (Suc i) ids ?w1"
  have w': "process_loop env n i (fid # ids) w = ?w'" by simp
  have ro: "run_out w ?w' = run_out w ?w1 @ run_out ?w1 ?w'"
    using process_loop_run_out [of w env n i fid ids] by simp
  from Cons.prems have 1: "\<forall>l\<in>set (run_out w ?w1). \<not> is_error_line l"
    and 2: "\<forall>l\<in>set (run_out ?w1 ?w'). \<not> is_error_line l"
    unfolding w' ro by auto
  from process_one_out' [of w env n i fid] obtain ls where
    ls: "run_out w ?w1 = LogProcessing i n (BUCKET_FOLDER_PATH env @ fid) # ls"
    and alt: "((\<exists>e. LogProcessError (BUCKET_FOLDER_PATH env @ fid) e \<in> set ls) \<and> docs ?w1 = docs w) \<or>
       ((\<forall>l\<in>set ls. \<not> is_error_line l) \<and>
        (\<exists>md. docs ?w1 = (docs w)(?key fid \<mapsto> md) \<and> record_of env w fid md))"
    by blast
  have "\<not> (\<exists>e. LogProcessError (BUCKET_FOLDER_PATH env @ fid) e \<in> set ls)"
    using 1 ls by fastforce
  with alt obtain md where md: "docs ?w1 = (docs w)(?key fid \<mapsto> md)" by blast
  from Cons.IH [OF 2] md show ?case unfolding w' by auto
qed

lemma translated_texts_nth:
  "translated_texts ts = Inr ss \<Longrightarrow>
     length ss = length ts \<and> (\<forall>i<length ts. (ts ! i) ''translatedText'' = Some (ss ! i))"
proof (induction ts arbitrary: ss)
  case Nil
  then show ?case by simp
next
  case (Cons t ts)
  from Cons.prems obtain s ss' where s: "t ''translatedText'' = Some s"
    and r: "translated_texts ts = Inr ss'" and ss: "ss = s # ss'"
    by (auto split: option.splits sum.splits)
  from Cons.IH [OF r] have l: "length ss' = length ts"
    and n: "\<forall>i<length ts. (ts ! i) ''translatedText'' = Some (ss' ! i)" by auto
  show ?case
  proof (intro conjI allI impI)
    show "length ss = length (t # ts)" using l ss by simp
  next
    fix i assume "i < length (t # ts)"
    then show "((t # ts) ! i) ''translatedText'' = Some (ss ! i)"
      using s n ss by (cases i) auto
  qed
qed

lemma gim_translate_calls:
  assumes "get_image_metadata env p w = (r, w')"
  shows "filter is_translate (run_calls w w') = [] \<or>
     (\<exists>txt. all_tags_en_of txt \<noteq> [] \<and>
        filter is_translate (run_calls w w') = [Translate (all_tags_en_of txt) ''pt''])"
  using assms
  by (auto simp: get_image_metadata_def download_as_bytes_def call_gemini_def translate_tags_def
        Let_def run_calls_def
      split: sum.splits option.splits prod.splits if_splits)

lemma translation_aligned_env_ok: "translation_aligned (env_ok folder)"
  by (simp add: translation_aligned_def env_ok_def)

lemma translation_aligned_env_silent: "translation_aligned env_silent"
  by (simp add: translation_aligned_def env_silent_def env_ok_def)

lemma set_iter_okD:
  "set_iter_ok env \<Longrightarrow> finite S \<Longrightarrow> set (set_iter env S) = S"
  "set_iter_ok env \<Longrightarrow> finite S \<Longrightarrow> distinct (set_iter env S)"
  by (simp_all add: set_iter_ok_def)

lemma set_iter_empty: "set_iter_ok env \<Longrightarrow> set_iter env {} = []"
  using set_iter_okD(1) [of env "{}"] by simp

subsection \<open>The two phases\<close>

lemma delete_removed_extends: "extends w (delete_removed env S w)"
proof (cases "S = {}")
  case True
  then show ?thesis by (simp add: delete_removed_def)
next
  case False
  have "extends w (print_line (LogDeleting (card S)) w)" by simp
  from extends_trans [OF this delete_loop_extends] False show ?thesis
    by (simp add: delete_removed_def)
qed

lemma delete_removed_calls:
  assumes "set_iter_ok env" "finite S"
  shows "run_calls w (delete_removed env S w) = map DeleteDoc (set_iter env S)"
proof (cases "S = {}")
  case True
  then show ?thesis using set_iter_empty [OF assms(1)] by (simp add: delete_removed_def)
next
  case False
  let ?w1 = "print_line (LogDeleting (card S)) w"
  have e: "extends w ?w1" by simp
  from run_calls_trans [OF e delete_loop_extends, of env "set_iter env S"] False
  show ?thesis by (simp add: delete_removed_def delete_loop_calls)
qed

lemma delete_removed_docs:
  assumes "set_iter_ok env" "finite S"
  shows "docs (delete_removed env S w) k = docs w k \<or>
         (k \<in> S \<and> docs (delete_removed env S w) k = None)"
proof (cases "S = {}")
  case True
  then show ?thesis by (simp add: delete_removed_def)
next
  case False
  let ?w1 = "print_line (LogDeleting (card S)) w"
  from delete_loop_docs [of env "set_iter env S" ?w1 k] False set_iter_okD(1) [OF assms]
  show ?thesis by (simp add: delete_removed_def)
qed

lemma delete_removed_out:
  "S \<noteq> {} \<Longrightarrow>
   run_out w (delete_removed env S w) =
     LogDeleting (card S) #
     run_out (print_line (LogDeleting (card S)) w)
       (delete_loop env (set_iter env S) (print_line (LogDeleting (card S)) w))"
proof -
  assume ne: "S \<noteq> {}"
  let ?w1 = "print_line (LogDeleting (card S)) w"
  have e: "extends w ?w1" by simp
  from run_out_trans [OF e delete_loop_extends, of env "set_iter env S"] ne
  show ?thesis by (simp add: delete_removed_def)
qed

lemma delete_removed_each:
  assumes "set_iter_ok env" "finite S" "a \<in> S"
  shows "(\<exists>e. LogDeleteError a e \<in> set (run_out w (delete_removed env S w))) \<or>
         docs (delete_removed env S w) a = None"
proof -
  from assms(3) have ne: "S \<noteq> {}" by auto
  let ?w1 = "print_line (LogDeleting (card S)) w"
  from assms have "a \<in> set (set_iter env S)" by (simp add: set_iter_okD)
  from delete_loop_each [OF this, of ?w1 env] show ?thesis
    unfolding delete_removed_out [OF ne] using ne by (auto simp: delete_removed_def)
qed

lemma delete_removed_clean:
  assumes "set_iter_ok env" "finite S"
    and "\<forall>l\<in>set (run_out w (delete_removed env S w)). \<not> is_error_line l"
  shows "docs (delete_removed env S w) = (\<lambda>k. if k \<in> S then None else docs w k)"
proof (cases "S = {}")
  case True
  then show ?thesis by (simp add: delete_removed_def)
next
  case False
  let ?w1 = "print_line (LogDeleting (card S)) w"
  from assms(3) have "\<forall>l\<in>set (run_out ?w1 (delete_loop env (set_iter env S) ?w1)). \<not> is_error_line l"
    unfolding delete_removed_out [OF False] by simp
  from delete_loop_clean [OF this] False set_iter_okD(1) [OF assms(1,2)]
  show ?thesis by (simp add: delete_removed_def cong: if_cong)
qed

lemma process_new_extends: "extends w (process_new env S w)"
proof (cases "S = {}")
  case True
  then show ?thesis by (simp add: process_new_def)
next
  case False
  let ?w1 = "print_line LogProcessingStart (print_line (LogNewCount (card S)) w)"
  have "extends w ?w1" by (simp add: extends_def)
  from extends_trans [OF this process_loop_extends] False show ?thesis
    by (simp add: process_new_def)
qed

lemma process_new_empty: "process_new env {} w = print_line LogNoneNew w"
  by (simp add: process_new_def)

lemma process_new_run:
  fixes w :: world and S :: "string set"
  assumes "S \<noteq> {}"
  defines "w1 \<equiv> print_line LogProcessingStart (print_line (LogNewCount (card S)) w)"
  shows "run_calls w (process_new env S w) =
           run_calls w1 (process_loop env (card S) 1 (set_iter env S) w1)"
    and "run_out w (process_new env S w) =
           LogNewCount (card S) # LogProcessingStart #
           run_out w1 (process_loop env (card S) 1 (set_iter env S) w1)"
    and "docs (process_new env S w) = docs (process_loop env (card S) 1 (set_iter env S) w1)"
    and "docs w1 = docs w" and "buckets w1 = buckets w"
proof -
  have e: "extends w w1" by (simp add: w1_def extends_def)
  have c: "run_calls w w1 = []" and o: "run_out w w1 = [LogNewCount (card S), LogProcessingStart]"
    by (simp_all add: w1_def run_calls_def run_out_def)
  have pn: "process_new env S w = process_loop env (card S) 1 (set_iter env S) w1"
    using assms(1) by (simp add: process_new_def w1_def)
  show "run_calls w (process_new env S w) =
           run_calls w1 (process_loop env (card S) 1 (set_iter env S) w1)"
    unfolding pn using run_calls_trans [OF e process_loop_extends] c by simp
  show "run_out w (process_new env S w) =
           LogNewCount (card S) # LogProcessingStart #
           run_out w1 (process_loop env (card S) 1 (set_iter env S) w1)"
    unfolding pn using run_out_trans [OF e process_loop_extends] o by simp
  show "docs (process_new env S w) = docs (process_loop env (card S) 1 (set_iter env S) w1)"
    unfolding pn ..
  show "docs w1 = docs w" "buckets w1 = buckets w" by (simp_all add: w1_def)
qed

lemma process_new_downloads:
  assumes "set_iter_ok env" "finite S"
  shows "filter is_download (run_calls w (process_new env S w)) =
     map (\<lambda>fid. DownloadBytes (BUCKET_NAME env) (BUCKET_FOLDER_PATH env @ fid)) (set_iter env S)"
proof (cases "S = {}")
  case True
  then show ?thesis using set_iter_empty [OF assms(1)] by (simp add: process_new_def)
next
  case False
  show ?thesis unfolding process_new_run(1) [OF False] by (rule process_loop_downloads)
qed

lemma process_new_calls:
  assumes "set_iter_ok env" "finite S"
    and "c \<in> set (run_calls w (process_new env S w))"
  shows "is_download c \<or> is_generate c \<or> is_translate c \<or>
     (\<exists>fid\<in>S. \<exists>md. c = SetDoc (basename (BUCKET_FOLDER_PATH env @ fid)) md \<and>
        record_of env w fid md)"
proof (cases "S = {}")
  case True
  with assms(3) show ?thesis by (simp add: process_new_def)
next
  case False
  let ?w1 = "print_line LogProcessingStart (print_line (LogNewCount (card S)) w)"
  have b: "buckets ?w1 = buckets w" by simp
  from assms(3) have "c \<in> set (run_calls ?w1 (process_loop env (card S) 1 (set_iter env S) ?w1))"
    unfolding process_new_run(1) [OF False] .
  from process_loop_calls [OF this] show ?thesis
    unfolding record_of_buckets [OF b] set_iter_okD(1) [OF assms(1,2)] .
qed

lemma process_new_docs:
  assumes "set_iter_ok env" "finite S"
  shows "docs (process_new env S w) k = docs w k \<or>
     (\<exists>fid\<in>S. \<exists>md. k = basename (BUCKET_FOLDER_PATH env @ fid) \<and>
        docs (process_new env S w) k = Some md \<and> record_of env w fid md)"
proof (cases "S = {}")
  case True
  then show ?thesis by (simp add: process_new_def)
next
  case False
  let ?w1 = "print_line LogProcessingStart (print_line (LogNewCount (card S)) w)"
  have b: "buckets ?w1 = buckets w" by simp
  have d: "docs ?w1 = docs w" by simp
  from process_loop_docs [of env "card S" 1 "set_iter env S" ?w1 k] show ?thesis
    unfolding process_new_run(3) [OF False] record_of_buckets [OF b] set_iter_okD(1) [OF assms] d .
qed

lemma process_new_each:
  assumes "set_iter_ok env" "finite S"
    and "inj_on (\<lambda>f. basename (BUCKET_FOLDER_PATH env @ f)) S"
    and "b \<in> S"
  shows "(\<exists>e. LogProcessError (BUCKET_FOLDER_PATH env @ b) e
              \<in> set (run_out w (process_new env S w))) \<or>
         (\<exists>md. docs (process_new env S w) (basename (BUCKET_FOLDER_PATH env @ b)) = Some md \<and>
               record_of env w b md)"
proof -
  from assms(4) have ne: "S \<noteq> {}" by auto
  let ?w1 = "print_line LogProcessingStart (print_line (LogNewCount (card S)) w)"
  have bk: "buckets ?w1 = buckets w" by simp
  have s: "set (set_iter env S) = S" and d: "distinct (set_iter env S)"
    using assms(1,2) by (simp_all add: set_iter_okD)
  from assms(3) have inj: "inj_on (\<lambda>f. basename (BUCKET_FOLDER_PATH env @ f)) (set (set_iter env S))"
    unfolding s .
  from assms(4) have b: "b \<in> set (set_iter env S)" unfolding s .
  from process_loop_each [OF d inj b, of ?w1 "card S" 1] show ?thesis
    unfolding process_new_run(2,3) [OF ne] record_of_buckets [OF bk] by auto
qed

lemma process_new_clean:
  assumes "set_iter_ok env" "finite S"
    and "\<forall>l\<in>set (run_out w (process_new env S w)). \<not> is_error_line l"
  shows "dom (docs (process_new env S w)) =
           dom (docs w) \<union> (\<lambda>f. basename (BUCKET_FOLDER_PATH env @ f)) ` S"
proof (cases "S = {}")
  case True
  then show ?thesis by (simp add: process_new_def)
next
  case False
  let ?w1 = "print_line LogProcessingStart (print_line (LogNewCount (card S)) w)"
  have d: "docs ?w1 = docs w" by simp
  from assms(3) have
    "\<forall>l\<in>set (run_out ?w1 (process_loop env (card S) 1 (set_iter env S) ?w1)). \<not> is_error_line l"
    unfolding process_new_run(2) [OF False] by simp
  from process_loop_clean [OF this] show ?thesis
    unfolding process_new_run(3) [OF False] d set_iter_okD(1) [OF assms(1,2)] .
qed

subsection \<open>The identifiers of the folder\<close>

lemma present_ids_eq:
  "present_ids env w =
     basename ` {n \<in> set (list_blobs w (BUCKET_NAME env) (BUCKET_FOLDER_PATH env)).
        endswith_any n [''.jpg'', ''.jpeg'', ''.png''] \<and> n \<noteq> BUCKET_FOLDER_PATH env}"
  by (simp add: present_ids_def collect_files_eq)

lemma finite_present_ids [simp]: "finite (present_ids env w)"
  by (simp add: present_ids_eq)

lemma present_ids_no_slash: "fid \<in> present_ids env w \<Longrightarrow> CHR ''/'' \<notin> set fid"
  by (auto simp: present_ids_eq basename_no_slash)

lemma present_ids_image:
  "fid \<in> present_ids env w \<Longrightarrow> endswith_any fid [''.jpg'', ''.jpeg'', ''.png'']"
  by (auto simp: present_ids_eq intro: endswith_any_basename)

lemma present_ids_buckets: "buckets w' = buckets w \<Longrightarrow> present_ids env w' = present_ids env w"
  by (simp add: present_ids_def list_blobs_def)

lemma endswith_any_append:
  "endswith_any s [''.jpg'', ''.jpeg'', ''.png''] \<Longrightarrow>
   endswith_any (p @ s) [''.jpg'', ''.jpeg'', ''.png'']"
  by (auto simp: endswith_any_image intro: endswith_append)

text \<open>A record is only written for a path that names an object of the folder.\<close>

lemma record_of_present:
  assumes "record_of env w fid md" and "endswith_any fid [''.jpg'', ''.jpeg'', ''.png'']"
  shows "basename (BUCKET_FOLDER_PATH env @ fid) \<in> present_ids env w"
proof -
  let ?n = "BUCKET_FOLDER_PATH env @ fid"
  from assms(1) have "map_of (buckets w (BUCKET_NAME env)) ?n \<noteq> None"
    by (simp add: record_of_def)
  then have "?n \<in> fst ` set (buckets w (BUCKET_NAME env))"
    by (simp add: map_of_eq_None_iff)
  then have "?n \<in> set (list_blobs w (BUCKET_NAME env) (BUCKET_FOLDER_PATH env))"
    by (simp add: list_blobs_def startswith_iff)
  moreover have "endswith_any ?n [''.jpg'', ''.jpeg'', ''.png'']"
    using assms(2) by (rule endswith_any_append)
  moreover have "?n \<noteq> BUCKET_FOLDER_PATH env"
    using endswith_any_nonempty [OF assms(2)] by simp
  ultimately show ?thesis unfolding present_ids_eq by blast
qed

lemma key_inj_on_present:
  "S \<subseteq> present_ids env w \<Longrightarrow> inj_on (\<lambda>f. basename (BUCKET_FOLDER_PATH env @ f)) S"
proof (rule inj_onI)
  fix x y
  assume S: "S \<subseteq> present_ids env w" and x: "x \<in> S" and y: "y \<in> S"
    and eq: "basename (BUCKET_FOLDER_PATH env @ x) = basename (BUCKET_FOLDER_PATH env @ y)"
  from S x y have "CHR ''/'' \<notin> set x" "CHR ''/'' \<notin> set y"
    by (auto dest: present_ids_no_slash)
  with eq show "x = y" by (simp add: basename_append)
qed

lemma key_folder_path_ok:
  "folder_path_ok env \<Longrightarrow> CHR ''/'' \<notin> set fid \<Longrightarrow> basename (BUCKET_FOLDER_PATH env @ fid) = fid"
  by (simp add: basename_append folder_path_ok_def basename_Nil_iff)

subsection \<open>The three ways a run goes\<close>

lemma after_listings_simps [simp]:
  "calls (after_listings env w) =
     calls w @ [ListBlobs (BUCKET_NAME env) (BUCKET_FOLDER_PATH env), StreamDocs]"
  "out (after_listings env w) = out w @ [LogStart (GEMINI_MODEL env)]"
  "docs (after_listings env w) = docs w"
  "buckets (after_listings env w) = buckets w"
  by (simp_all add: after_listings_def)

lemma after_listings_extends [simp]: "extends w (after_listings env w)"
  by (simp add: extends_def)

lemma after_listings_run [simp]:
  "run_calls w (after_listings env w) =
     [ListBlobs (BUCKET_NAME env) (BUCKET_FOLDER_PATH env), StreamDocs]"
  "run_out w (after_listings env w) = [LogStart (GEMINI_MODEL env)]"
  by (simp_all add: run_calls_def run_out_def)

lemma main_list_fault:
  assumes "storage_list_fault env (calls w) = Some e"
  shows "main env w =
     (Inl e, issue (ListBlobs (BUCKET_NAME env) (BUCKET_FOLDER_PATH env))
               (print_line (LogStart (GEMINI_MODEL env)) w))"
  using assms by (simp add: main_def list_images_in_bucket_def Let_def)

lemma main_stream_fault:
  assumes "storage_list_fault env (calls w) = None"
    and "firestore_stream_fault env
           (calls w @ [ListBlobs (BUCKET_NAME env) (BUCKET_FOLDER_PATH env)]) = Some e"
  shows "main env w = (Inr (), print_line (LogFirestoreError e) (after_listings env w))"
  using assms
  by (simp add: main_def list_images_in_bucket_def stream_doc_ids_def after_listings_def Let_def)

lemma main_ok:
  assumes "storage_list_fault env (calls w) = None"
    and "firestore_stream_fault env
           (calls w @ [ListBlobs (BUCKET_NAME env) (BUCKET_FOLDER_PATH env)]) = None"
  shows "main env w =
     (Inr (), print_line LogDone
        (process_new env (present_ids env w - dom (docs w))
           (delete_removed env (dom (docs w) - present_ids env w) (after_listings env w))))"
  using assms
  by (simp add: main_def list_images_in_bucket_def stream_doc_ids_def after_listings_def Let_def
      present_ids_def list_blobs_def)

lemma main_ok':
  assumes "storage_list_fault env (calls w) = None"
    and "firestore_stream_fault env
           (calls w @ [ListBlobs (BUCKET_NAME env) (BUCKET_FOLDER_PATH env)]) = None"
  shows "main env w = (Inr (), print_line LogDone (after_create env w))"
  using main_ok [OF assms] by (simp add: after_create_def after_delete_def to_delete_def to_create_def)

lemma finite_to_create [simp]: "finite (to_create env w)"
  by (simp add: to_create_def)

lemma finite_to_delete: "finite (dom (docs w)) \<Longrightarrow> finite (to_delete env w)"
  by (simp add: to_delete_def)

lemma after_delete_extends: "extends (after_listings env w) (after_delete env w)"
  unfolding after_delete_def by (rule delete_removed_extends)

lemma after_create_extends: "extends (after_delete env w) (after_create env w)"
  unfolding after_create_def by (rule process_new_extends)

lemma after_delete_extends0: "extends w (after_delete env w)"
  using extends_trans [OF after_listings_extends after_delete_extends] .

lemma after_create_extends0: "extends w (after_create env w)"
  using extends_trans [OF after_delete_extends0 after_create_extends] .

lemma after_create_run_calls:
  "run_calls w (print_line LogDone (after_create env w)) =
     [ListBlobs (BUCKET_NAME env) (BUCKET_FOLDER_PATH env), StreamDocs] @
     run_calls (after_listings env w) (after_delete env w) @
     run_calls (after_delete env w) (after_create env w)"
proof -
  have 1: "run_calls w (after_delete env w) =
      [ListBlobs (BUCKET_NAME env) (BUCKET_FOLDER_PATH env), StreamDocs] @
      run_calls (after_listings env w) (after_delete env w)"
    using run_calls_trans [OF after_listings_extends after_delete_extends] by simp
  have 2: "run_calls w (after_create env w) =
      run_calls w (after_delete env w) @ run_calls (after_delete env w) (after_create env w)"
    using run_calls_trans [OF after_delete_extends0 after_create_extends] .
  have 3: "run_calls w (print_line LogDone (after_create env w)) = run_calls w (after_create env w)"
    using run_calls_trans [OF after_create_extends0 extends_print_line] by simp
  show ?thesis unfolding 3 2 1 by simp
qed

lemma after_create_run_out:
  "run_out w (print_line LogDone (after_create env w)) =
     [LogStart (GEMINI_MODEL env)] @
     run_out (after_listings env w) (after_delete env w) @
     run_out (after_delete env w) (after_create env w) @ [LogDone]"
proof -
  have 1: "run_out w (after_delete env w) =
      [LogStart (GEMINI_MODEL env)] @ run_out (after_listings env w) (after_delete env w)"
    using run_out_trans [OF after_listings_extends after_delete_extends] by simp
  have 2: "run_out w (after_create env w) =
      run_out w (after_delete env w) @ run_out (after_delete env w) (after_create env w)"
    using run_out_trans [OF after_delete_extends0 after_create_extends] .
  have 3: "run_out w (print_line LogDone (after_create env w)) =
      run_out w (after_create env w) @ [LogDone]"
    using run_out_trans [OF after_create_extends0 extends_print_line] by simp
  show ?thesis unfolding 3 2 1 by simp
qed

lemma after_delete_buckets [simp]: "buckets (after_delete env w) = buckets w"
  using extends_buckets [OF after_delete_extends0] .

lemma after_create_buckets [simp]: "buckets (after_create env w) = buckets w"
  using extends_buckets [OF after_create_extends0] .

text \<open>The calls of the two phases.\<close>

lemma after_delete_calls:
  assumes "set_iter_ok env" "finite (dom (docs w))"
  shows "run_calls (after_listings env w) (after_delete env w) =
           map DeleteDoc (set_iter env (to_delete env w))"
  unfolding after_delete_def
  using delete_removed_calls [OF assms(1) finite_to_delete [OF assms(2)]] .

lemma after_create_downloads:
  assumes "set_iter_ok env"
  shows "filter is_download (run_calls (after_delete env w) (after_create env w)) =
     map (\<lambda>fid. DownloadBytes (BUCKET_NAME env) (BUCKET_FOLDER_PATH env @ fid))
       (set_iter env (to_create env w))"
  unfolding after_create_def using process_new_downloads [OF assms finite_to_create] .

lemma after_create_calls:
  assumes "set_iter_ok env"
    and "c \<in> set (run_calls (after_delete env w) (after_create env w))"
  shows "is_download c \<or> is_generate c \<or> is_translate c \<or>
     (\<exists>fid\<in>to_create env w. \<exists>md. c = SetDoc (basename (BUCKET_FOLDER_PATH env @ fid)) md \<and>
        record_of env w fid md)"
proof -
  have b: "buckets (after_delete env w) = buckets w" by simp
  from process_new_calls [OF assms(1) finite_to_create assms(2) [unfolded after_create_def]]
  show ?thesis unfolding record_of_buckets [OF b] .
qed

lemma after_create_docs:
  assumes "set_iter_ok env"
  shows "docs (after_create env w) k = docs (after_delete env w) k \<or>
     (\<exists>fid\<in>to_create env w. \<exists>md. k = basename (BUCKET_FOLDER_PATH env @ fid) \<and>
        docs (after_create env w) k = Some md \<and> record_of env w fid md)"
proof -
  have b: "buckets (after_delete env w) = buckets w" by simp
  from process_new_docs [OF assms finite_to_create [of env w], where w = "after_delete env w" and k = k]
  show ?thesis unfolding record_of_buckets [OF b] after_create_def .
qed

lemma after_delete_docs:
  assumes "set_iter_ok env" "finite (dom (docs w))"
  shows "docs (after_delete env w) k = docs w k \<or>
         (k \<in> to_delete env w \<and> docs (after_delete env w) k = None)"
  using delete_removed_docs [OF assms(1) finite_to_delete [OF assms(2)], where w = "after_listings env w" and k = k]
  unfolding after_delete_def by simp

lemma set_iter_ok_env_ok: "set_iter_ok (env_ok folder)"
  by (simp add: set_iter_ok_def env_ok_def)

lemma env_ok_simps [simp]:
  "BUCKET_NAME (env_ok folder) = ''photos''"
  "BUCKET_FOLDER_PATH (env_ok folder) = folder"
  "storage_list_fault (env_ok folder) h = None"
  "firestore_stream_fault (env_ok folder) h = None"
  by (simp_all add: env_ok_def)

lemma present_ids_scenario: "present_ids (env_ok []) w_scenario = {''a.jpg'', ''b.png''}"
  unfolding present_ids_eq set_filter [symmetric] list.set_map [symmetric]
  by (simp add: list_blobs_def w_scenario_def startswith_def endswith_any_def endswith_def
      basename_def insert_commute)

lemma dom_docs_scenario: "dom (docs w_scenario) = {''b.png'', ''c.jpg''}"
  by (auto simp: w_scenario_def)

lemma not_delete:
  "is_download c \<Longrightarrow> \<not> is_delete c" "is_generate c \<Longrightarrow> \<not> is_delete c"
  "is_translate c \<Longrightarrow> \<not> is_delete c" "is_set c \<Longrightarrow> \<not> is_delete c"
  by (cases c; simp)+

text \<open>The deletions and the downloads of a run whose two listings succeed.\<close>

lemma main_deletes:
  assumes "set_iter_ok env" "finite (dom (docs w))"
  shows "filter is_delete (run_calls w (print_line LogDone (after_create env w))) =
           map DeleteDoc (set_iter env (to_delete env w))"
proof -
  have "\<not> is_delete c" if "c \<in> set (run_calls (after_delete env w) (after_create env w))" for c
    using after_create_calls [OF assms(1) that] not_delete by fastforce
  then have 1: "filter is_delete (run_calls (after_delete env w) (after_create env w)) = []"
    by (simp add: filter_empty_conv)
  have 2: "filter is_delete (map DeleteDoc xs) = map DeleteDoc xs" for xs
    by (induction xs) auto
  show ?thesis unfolding after_create_run_calls after_delete_calls [OF assms]
    by (simp add: 1 2)
qed

lemma main_downloads:
  assumes "set_iter_ok env" "finite (dom (docs w))"
  shows "filter is_download (run_calls w (print_line LogDone (after_create env w))) =
           map (\<lambda>fid. DownloadBytes (BUCKET_NAME env) (BUCKET_FOLDER_PATH env @ fid))
             (set_iter env (to_create env w))"
proof -
  have 2: "filter is_download (map DeleteDoc xs) = []" for xs
    by (induction xs) auto
  show ?thesis unfolding after_create_run_calls after_delete_calls [OF assms]
    by (simp add: 2 after_create_downloads [OF assms(1)])
qed

lemma mem_filter_delete: "DeleteDoc a \<in> set cs \<longleftrightarrow> DeleteDoc a \<in> set (filter is_delete cs)"
  by simp

lemma mem_filter_download:
  "DownloadBytes b n \<in> set cs \<longleftrightarrow> DownloadBytes b n \<in> set (filter is_download cs)"
  by simp

subsection \<open>Evaluating a run\<close>

lemmas run_defs =
  main_def list_images_in_bucket_def stream_doc_ids_def delete_removed_def process_new_def
  delete_one_def document_delete_def process_one_def get_image_metadata_def
  download_as_bytes_def call_gemini_def translate_tags_def save_metadata_to_firestore_def
  all_tags_en_of_def parse_tags_def strip_def isspace_def basename_def issue_def print_line_def
  list_blobs_def startswith_def endswith_any_def endswith_def Let_def

lemma sorted_list_of_pair: "a < b \<Longrightarrow> sorted_list_of_set {a, b} = [a, (b::string)]"
proof -
  assume ab: "a < b"
  have "sorted_list_of_set (insert a {b}) = insort a (sorted_list_of_set {b})"
    using ab by (intro sorted_list_of_set_insert) auto
  then show ?thesis using ab by (simp add: less_imp_le)
qed

lemma main_flaky: "main env_flaky w_two = (Inr (), w_two_after)"
proof -
  have d1: "{''c.jpg''} - {''b.png'', ''a.jpg''} = {''c.jpg''}" by auto
  have d2: "{''b.png'', ''a.jpg''} - {''c.jpg''} = {''a.jpg'', ''b.png''}" by auto
  have s: "sorted_list_of_set {''a.jpg'', ''b.png''} = [''a.jpg'', ''b.png'']"
    by (rule sorted_list_of_pair) simp
  show ?thesis
    by (simp add: run_defs env_flaky_def env_ok_def w_two_def w_two_after_def record_b_def
        d1 d2 s)
qed

lemma set_iter_ok_env_flaky: "set_iter_ok env_flaky"
  by (simp add: set_iter_ok_def env_flaky_def env_ok_def)

text \<open>A record written by the run is not one of the documents to delete.\<close>

lemma record_not_to_delete:
  assumes "fid \<in> to_create env w" and "record_of env w fid md"
  shows "basename (BUCKET_FOLDER_PATH env @ fid) \<notin> to_delete env w"
proof -
  from assms(1) have "fid \<in> present_ids env w" by (simp add: to_create_def)
  from record_of_present [OF assms(2) present_ids_image [OF this]]
  show ?thesis by (simp add: to_delete_def)
qed

lemma basename_inner:
  assumes "CHR ''/'' \<in> set rest"
  shows "basename (p @ rest) = basename rest"
proof -
  from assms have "CHR ''/'' \<in> set (rev rest)" by simp
  then have "takeWhile (\<lambda>c. c \<noteq> CHR ''/'') (rev rest @ rev p) =
             takeWhile (\<lambda>c. c \<noteq> CHR ''/'') (rev rest)"
    by (intro takeWhile_append1) auto
  then show ?thesis by (simp add: basename_def)
qed

lemma basename_shorter:
  assumes "CHR ''/'' \<in> set rest"
  shows "length (basename (p @ rest)) < length rest"
proof -
  from basename_decomp [of rest] obtain d where d: "rest = d @ basename rest" by blast
  have "d \<noteq> []"
  proof
    assume "d = []"
    with d have "rest = basename rest" by simp
    with assms basename_no_slash [of rest] show False by simp
  qed
  with d have "length (basename rest) < length rest"
    by (metis length_append length_greater_0_conv less_add_same_cancel2)
  then show ?thesis by (simp add: basename_inner [OF assms])
qed

text \<open>When joining the folder and the base name gives the name of the object back.\<close>

lemma rejoined_path:
  "BUCKET_FOLDER_PATH env @ basename (BUCKET_FOLDER_PATH env @ rest) = BUCKET_FOLDER_PATH env @ rest
     \<longleftrightarrow> CHR ''/'' \<notin> set rest \<and> folder_path_ok env"
proof (cases "CHR ''/'' \<in> set rest")
  case True
  from basename_shorter [OF True, of "BUCKET_FOLDER_PATH env"] True show ?thesis by auto
next
  case False
  then show ?thesis
    by (simp add: basename_append folder_path_ok_def basename_Nil_iff)
qed

lemma main_p: "main (env_ok ''p'') w_p = (Inr (), w_p_after)"
proof -
  have d1: "{''ppa.jpg''} - {''ppa.jpg'', ''pa.jpg''} = {}" by auto
  have d2: "{''ppa.jpg'', ''pa.jpg''} - {''ppa.jpg''} = {''pa.jpg''}" by auto
  show ?thesis
    by (simp add: run_defs env_ok_def w_p_def w_p_after_def record_p_def d1 d2)
qed

lemma main_scenario: "main (env_ok []) w_scenario = (Inr (), w_scenario_after)"
proof -
  have d1: "{''c.jpg'', ''b.png''} - {''b.png'', ''a.jpg''} = {''c.jpg''}" by auto
  have d2: "{''b.png'', ''a.jpg''} - {''c.jpg'', ''b.png''} = {''a.jpg''}" by auto
  have m: "[''b.png'' \<mapsto> old_record ''b.png'', ''c.jpg'' \<mapsto> old_record ''c.jpg'']
             (''c.jpg'' := None, ''a.jpg'' \<mapsto> record_a)
           = [''b.png'' \<mapsto> old_record ''b.png'', ''a.jpg'' \<mapsto> record_a]"
    by (rule ext) simp
  show ?thesis
    by (simp add: run_defs env_ok_def w_scenario_def w_scenario_after_def record_a_def calls_a_def
        d1 d2 m)
qed

text \<open>A run that returns normally and prints no error line went through both listings
  and both phases, and no item failed.\<close>

lemma clean_run:
  assumes it: "set_iter_ok env" and fin: "finite (dom (docs w))"
    and run: "main env w = (Inr (), w')"
    and clean: "\<forall>l\<in>set (run_out w w'). \<not> is_error_line l"
  shows "w' = print_line LogDone (after_create env w)"
    and "docs (after_delete env w) = (\<lambda>k. if k \<in> to_delete env w then None else docs w k)"
    and "dom (docs w') =
           (dom (docs w) - to_delete env w) \<union>
           (\<lambda>f. basename (BUCKET_FOLDER_PATH env @ f)) ` to_create env w"
    and "\<forall>l\<in>set (run_out (after_delete env w) (after_create env w)). \<not> is_error_line l"
proof -
  have l: "storage_list_fault env (calls w) = None"
  proof (cases "storage_list_fault env (calls w)")
    case (Some e)
    from main_list_fault [OF Some] run show ?thesis by simp
  qed simp
  have s: "firestore_stream_fault env
             (calls w @ [ListBlobs (BUCKET_NAME env) (BUCKET_FOLDER_PATH env)]) = None"
  proof (cases "firestore_stream_fault env
             (calls w @ [ListBlobs (BUCKET_NAME env) (BUCKET_FOLDER_PATH env)])")
    case (Some e)
    from main_stream_fault [OF l Some] run
    have w': "w' = print_line (LogFirestoreError e) (after_listings env w)" by simp
    have "LogFirestoreError e \<in> set (run_out w w')"
      unfolding w' by (simp add: run_out_def)
    with clean show ?thesis by auto
  qed simp
  from main_ok' [OF l s] run show w': "w' = print_line LogDone (after_create env w)" by simp
  from clean have
    d: "\<forall>l\<in>set (run_out (after_listings env w) (after_delete env w)). \<not> is_error_line l" and
    c: "\<forall>l\<in>set (run_out (after_delete env w) (after_create env w)). \<not> is_error_line l"
    unfolding w' after_create_run_out by simp_all
  from c show "\<forall>l\<in>set (run_out (after_delete env w) (after_create env w)). \<not> is_error_line l" .
  from delete_removed_clean [OF it finite_to_delete [OF fin] d [unfolded after_delete_def]]
  show dd: "docs (after_delete env w) = (\<lambda>k. if k \<in> to_delete env w then None else docs w k)"
    unfolding after_delete_def by (simp cong: if_cong)
  have "dom (docs (after_delete env w)) = dom (docs w) - to_delete env w"
    unfolding dd by (auto split: if_splits)
  with process_new_clean [OF it finite_to_create c [unfolded after_create_def]]
  show "dom (docs w') =
           (dom (docs w) - to_delete env w) \<union>
           (\<lambda>f. basename (BUCKET_FOLDER_PATH env @ f)) ` to_create env w"
    unfolding w' after_create_def [symmetric] by simp
qed

text \<open>With a folder that is the root or ends with a slash, the key of the record of an
  identifier of the folder is the identifier.\<close>

lemma key_present:
  "folder_path_ok env \<Longrightarrow> fid \<in> present_ids env w \<Longrightarrow>
   basename (BUCKET_FOLDER_PATH env @ fid) = fid"
  by (rule key_folder_path_ok) (auto dest: present_ids_no_slash)

lemma keys_to_create:
  assumes "folder_path_ok env"
  shows "(\<lambda>f. basename (BUCKET_FOLDER_PATH env @ f)) ` to_create env w = to_create env w"
proof -
  have "basename (BUCKET_FOLDER_PATH env @ f) = f" if "f \<in> to_create env w" for f
    using that key_present [OF assms, of f w] by (simp add: to_create_def)
  then show ?thesis by force
qed

lemma main_buckets:
  "buckets (snd (main env w)) = buckets w"
proof (cases "storage_list_fault env (calls w)")
  case (Some e)
  from main_list_fault [OF Some] show ?thesis by simp
next
  case None
  show ?thesis
  proof (cases "firestore_stream_fault env
             (calls w @ [ListBlobs (BUCKET_NAME env) (BUCKET_FOLDER_PATH env)])")
    case (Some e)
    from main_stream_fault [OF None Some] show ?thesis by simp
  next
    case n: None
    from main_ok' [OF None n] show ?thesis by simp
  qed
qed

text \<open>After such a run the documents are those of the images of the folder: the stored
  ones kept as they were, the others with a record written by the run.\<close>

lemma clean_run_synced:
  assumes it: "set_iter_ok env" and fin: "finite (dom (docs w))"
    and fp: "folder_path_ok env"
    and run: "main env w = (Inr (), w')"
    and clean: "\<forall>l\<in>set (run_out w w'). \<not> is_error_line l"
  shows "dom (docs w') = present_ids env w"
    and "present_ids env w' = present_ids env w"
    and "fid \<in> present_ids env w \<Longrightarrow> fid \<in> dom (docs w) \<Longrightarrow> docs w' fid = docs w fid"
    and "fid \<in> present_ids env w \<Longrightarrow> fid \<notin> dom (docs w) \<Longrightarrow>
         \<exists>md. docs w' fid = Some md \<and> file_id md = fid \<and>
              file_name md = BUCKET_FOLDER_PATH env @ fid"
proof -
  note cr = clean_run [OF it fin run clean]
  show "dom (docs w') = present_ids env w"
    unfolding cr(3) keys_to_create [OF fp] by (auto simp: to_delete_def to_create_def)
  from main_buckets [of env w] run have "buckets w' = buckets w" by simp
  then show "present_ids env w' = present_ids env w" by (rule present_ids_buckets)
  have d: "docs w' = docs (after_create env w)" unfolding cr(1) by simp
  {
    assume p: "fid \<in> present_ids env w" and s: "fid \<in> dom (docs w)"
    from after_create_docs [OF it, of w fid]
    show "docs w' fid = docs w fid"
    proof
      assume "docs (after_create env w) fid = docs (after_delete env w) fid"
      with p show ?thesis unfolding d cr(2) by (simp add: to_delete_def)
    next
      assume "\<exists>f\<in>to_create env w. \<exists>md. fid = basename (BUCKET_FOLDER_PATH env @ f) \<and>
        docs (after_create env w) fid = Some md \<and> record_of env w f md"
      then obtain f where f: "f \<in> to_create env w"
        and k: "fid = basename (BUCKET_FOLDER_PATH env @ f)" by blast
      from f have "f \<in> present_ids env w" by (simp add: to_create_def)
      from key_present [OF fp this] k have "fid = f" by simp
      with f s show ?thesis by (simp add: to_create_def)
    qed
  }
  {
    assume p: "fid \<in> present_ids env w" and s: "fid \<notin> dom (docs w)"
    then have tc: "fid \<in> to_create env w" by (simp add: to_create_def)
    have inj: "inj_on (\<lambda>f. basename (BUCKET_FOLDER_PATH env @ f)) (to_create env w)"
      by (rule key_inj_on_present [of _ env w]) (auto simp: to_create_def)
    from process_new_each [OF it finite_to_create inj tc, of "after_delete env w"]
    have "(\<exists>e. LogProcessError (BUCKET_FOLDER_PATH env @ fid) e
              \<in> set (run_out (after_delete env w) (after_create env w))) \<or>
         (\<exists>md. docs (after_create env w) (basename (BUCKET_FOLDER_PATH env @ fid)) = Some md \<and>
               record_of env (after_delete env w) fid md)"
      unfolding after_create_def .
    moreover have "\<not> (\<exists>e. LogProcessError (BUCKET_FOLDER_PATH env @ fid) e
              \<in> set (run_out (after_delete env w) (after_create env w)))"
      using cr(4) by auto
    ultimately obtain md where
      "docs (after_create env w) (basename (BUCKET_FOLDER_PATH env @ fid)) = Some md"
      "record_of env (after_delete env w) fid md" by blast
    then show "\<exists>md. docs w' fid = Some md \<and> file_id md = fid \<and>
              file_name md = BUCKET_FOLDER_PATH env @ fid"
      unfolding d key_present [OF fp p] by (auto simp: record_of_def key_present [OF fp p])
  }
qed

lemma present_ids_p: "present_ids (env_ok ''p'') w_p = {''pa.jpg'', ''ppa.jpg''}"
  unfolding present_ids_eq set_filter [symmetric] list.set_map [symmetric]
  by (simp add: list_blobs_def w_p_def startswith_def endswith_any_def endswith_def
      basename_def insert_commute)

lemma folder_path_ok_root: "folder_path_ok (env_ok [])"
  by (simp add: folder_path_ok_def)

lemma main_p_again: "main (env_ok ''p'') w_p_after = (Inr (), w_p_again)"
proof -
  have d1: "{''ppa.jpg''} - {''ppa.jpg'', ''pa.jpg''} = {}" by auto
  have d2: "{''ppa.jpg'', ''pa.jpg''} - {''ppa.jpg''} = {''pa.jpg''}" by auto
  show ?thesis
    by (simp add: run_defs env_ok_def w_p_after_def w_p_again_def record_p_def d1 d2)
qed

lemma main_scenario_again: "main (env_ok []) w_scenario_after = (Inr (), w_scenario_again)"
proof -
  have d1: "{''a.jpg'', ''b.png''} - {''b.png'', ''a.jpg''} = {}" by auto
  have d2: "{''b.png'', ''a.jpg''} - {''a.jpg'', ''b.png''} = {}" by auto
  show ?thesis
    by (simp add: run_defs env_ok_def w_scenario_after_def w_scenario_again_def record_a_def
        calls_a_def d1 d2)
qed

text \<open>The three ways a run goes.\<close>

lemma main_cases:
  "(\<exists>e. main env w =
      (Inl e, issue (ListBlobs (BUCKET_NAME env) (BUCKET_FOLDER_PATH env))
                (print_line (LogStart (GEMINI_MODEL env)) w))) \<or>
   (\<exists>e. main env w = (Inr (), print_line (LogFirestoreError e) (after_listings env w))) \<or>
   main env w = (Inr (), print_line LogDone (after_create env w))"
proof (cases "storage_list_fault env (calls w)")
  case (Some e)
  from main_list_fault [OF Some] show ?thesis by blast
next
  case None
  show ?thesis
  proof (cases "firestore_stream_fault env
             (calls w @ [ListBlobs (BUCKET_NAME env) (BUCKET_FOLDER_PATH env)])")
    case (Some e)
    from main_stream_fault [OF None Some] show ?thesis by blast
  next
    case n: None
    from main_ok' [OF None n] show ?thesis by blast
  qed
qed

text \<open>When the store holds exactly the identifiers of the folder, a run only lists.\<close>

lemma run_idle:
  assumes it: "set_iter_ok env" and eq: "dom (docs w) = present_ids env w"
    and run: "main env w = (r, w')"
  shows "set (run_calls w w') \<subseteq>
           {ListBlobs (BUCKET_NAME env) (BUCKET_FOLDER_PATH env), StreamDocs}"
    and "docs w' = docs w"
proof -
  from eq have td: "to_delete env w = {}" and tc: "to_create env w = {}"
    by (simp_all add: to_delete_def to_create_def)
  have ac: "after_create env w =
      print_line LogNoneNew (print_line LogNoneRemoved (after_listings env w))"
    by (simp add: after_create_def after_delete_def td tc delete_removed_def process_new_def)
  from main_cases [of env w] run
  have "w' = issue (ListBlobs (BUCKET_NAME env) (BUCKET_FOLDER_PATH env))
                (print_line (LogStart (GEMINI_MODEL env)) w) \<or>
        (\<exists>e. w' = print_line (LogFirestoreError e) (after_listings env w)) \<or>
        w' = print_line LogDone (after_create env w)"
    by auto
  then have "(set (run_calls w w') \<subseteq>
           {ListBlobs (BUCKET_NAME env) (BUCKET_FOLDER_PATH env), StreamDocs}) \<and> docs w' = docs w"
    unfolding ac by (auto simp: run_calls_def)
  then show "set (run_calls w w') \<subseteq>
           {ListBlobs (BUCKET_NAME env) (BUCKET_FOLDER_PATH env), StreamDocs}"
    and "docs w' = docs w" by simp_all
qed

text \<open>An identifier that is both in the folder and in the store: the run requests no
  deletion of it and does not fetch its image; when the folder is the root or ends with a
  slash, the run writes no record under it and leaves its record as it was.\<close>

lemma kept_ids:
  assumes it: "set_iter_ok env" and fin: "finite (dom (docs w))"
    and p: "fid \<in> present_ids env w" and s: "fid \<in> dom (docs w)"
    and run: "main env w = (r, w')"
  shows "DeleteDoc fid \<notin> set (run_calls w w')"
    and "DownloadBytes (BUCKET_NAME env) (BUCKET_FOLDER_PATH env @ fid) \<notin> set (run_calls w w')"
    and "folder_path_ok env \<Longrightarrow> SetDoc fid md \<notin> set (run_calls w w')"
    and "folder_path_ok env \<Longrightarrow> docs w' fid = docs w fid"
proof -
  from p s have ntd: "fid \<notin> to_delete env w" and ntc: "fid \<notin> to_create env w"
    by (simp_all add: to_delete_def to_create_def)
  let ?two = "[ListBlobs (BUCKET_NAME env) (BUCKET_FOLDER_PATH env), StreamDocs]"
  from main_cases [of env w] run
  consider (short) "set (run_calls w w') \<subseteq> set ?two" "docs w' = docs w"
    | (full) "w' = print_line LogDone (after_create env w)"
    by (auto simp: run_calls_def)
  note cases = this
  show "DeleteDoc fid \<notin> set (run_calls w w')"
  proof (cases rule: cases)
    case short then show ?thesis by auto
  next
    case full
    have "DeleteDoc fid \<notin> set (filter is_delete (run_calls w w'))"
      unfolding full main_deletes [OF it fin] using ntd set_iter_okD(1) [OF it finite_to_delete [OF fin]]
      by auto
    then show ?thesis by simp
  qed
  show "DownloadBytes (BUCKET_NAME env) (BUCKET_FOLDER_PATH env @ fid) \<notin> set (run_calls w w')"
  proof (cases rule: cases)
    case short then show ?thesis by auto
  next
    case full
    have "DownloadBytes (BUCKET_NAME env) (BUCKET_FOLDER_PATH env @ fid)
            \<notin> set (filter is_download (run_calls w w'))"
      unfolding full main_downloads [OF it fin]
      using ntc set_iter_okD(1) [OF it finite_to_create [of env w]] by auto
    then show ?thesis by simp
  qed
  {
    assume fp: "folder_path_ok env"
    have key: "basename (BUCKET_FOLDER_PATH env @ f) \<noteq> fid" if "f \<in> to_create env w" for f
    proof -
      from that have "f \<in> present_ids env w" by (simp add: to_create_def)
      from key_present [OF fp this] that ntc show ?thesis by auto
    qed
    show "SetDoc fid md \<notin> set (run_calls w w')"
    proof (cases rule: cases)
      case short then show ?thesis by auto
    next
      case full
      show ?thesis
      proof
        assume "SetDoc fid md \<in> set (run_calls w w')"
        then have "SetDoc fid md \<in> set (run_calls (after_delete env w) (after_create env w))"
          unfolding full after_create_run_calls after_delete_calls [OF it fin] by auto
        from after_create_calls [OF it this] key show False by auto
      qed
    qed
    show "docs w' fid = docs w fid"
    proof (cases rule: cases)
      case short then show ?thesis by simp
    next
      case full
      from after_create_docs [OF it, of w fid] key
      have "docs (after_create env w) fid = docs (after_delete env w) fid" by blast
      also from after_delete_docs [OF it fin, of fid] ntd
      have "\<dots> = docs w fid" by blast
      finally show ?thesis unfolding full by simp
    qed
  }
qed

lemma main_collide: "main (env_ok ''x/'') w_collide = (Inr (), w_collide_after)"
  by (simp add: run_defs env_ok_def w_collide_def w_collide_after_def)

lemma main_direct: "main (env_ok ''x/'') w_direct = (Inr (), w_direct_after)"
  by (simp add: run_defs env_ok_def w_direct_def w_direct_after_def record_x_def)

lemma present_ids_image_objects: "present_ids env w = basename ` image_objects env w"
  by (simp add: present_ids_eq image_objects_def)

lemma finite_image_objects [simp]: "finite (image_objects env w)"
  by (simp add: image_objects_def)

text \<open>Two images with the same base name count for one identifier.\<close>

lemma collapse:
  assumes "n1 \<in> image_objects env w" "n2 \<in> image_objects env w" "n1 \<noteq> n2"
    and "basename n1 = basename n2"
  shows "basename n1 \<in> present_ids env w"
    and "card (present_ids env w) < card (image_objects env w)"
proof -
  from assms(1) show "basename n1 \<in> present_ids env w"
    unfolding present_ids_image_objects by (rule imageI)
  from assms have "\<not> inj_on basename (image_objects env w)" by (auto simp: inj_on_def)
  then have "card (basename ` image_objects env w) \<noteq> card (image_objects env w)"
    by (simp add: inj_on_iff_eq_card)
  moreover have "card (basename ` image_objects env w) \<le> card (image_objects env w)"
    by (rule card_image_le) simp
  ultimately show "card (present_ids env w) < card (image_objects env w)"
    unfolding present_ids_image_objects by simp
qed

text \<open>No path is fetched twice in a run.\<close>

lemma downloads_distinct:
  assumes it: "set_iter_ok env" and fin: "finite (dom (docs w))"
    and run: "main env w = (r, w')"
  shows "distinct (filter is_download (run_calls w w'))"
proof -
  from main_cases [of env w] run
  consider (short) "set (run_calls w w') \<subseteq>
      {ListBlobs (BUCKET_NAME env) (BUCKET_FOLDER_PATH env), StreamDocs}"
    | (full) "w' = print_line LogDone (after_create env w)"
    by (auto simp: run_calls_def)
  then show ?thesis
  proof cases
    case short
    then have "filter is_download (run_calls w w') = []"
      by (auto simp: filter_empty_conv)
    then show ?thesis by simp
  next
    case full
    have "inj_on (\<lambda>fid. DownloadBytes (BUCKET_NAME env) (BUCKET_FOLDER_PATH env @ fid)) A" for A
      by (simp add: inj_on_def)
    then show ?thesis
      unfolding full main_downloads [OF it fin]
      by (simp add: distinct_map set_iter_okD(2) [OF it finite_to_create])
  qed
qed

text \<open>Every record saved by a run is the record of an identifier to create.\<close>

lemma saved_records:
  assumes it: "set_iter_ok env" and fin: "finite (dom (docs w))"
    and run: "main env w = (r, w')"
    and c: "SetDoc k md \<in> set (run_calls w w')"
  shows "\<exists>fid\<in>to_create env w. k = basename (BUCKET_FOLDER_PATH env @ fid) \<and>
           record_of env w fid md"
proof -
  from main_cases [of env w] run
  consider (short) "set (run_calls w w') \<subseteq>
      {ListBlobs (BUCKET_NAME env) (BUCKET_FOLDER_PATH env), StreamDocs}"
    | (full) "w' = print_line LogDone (after_create env w)"
    by (auto simp: run_calls_def)
  then show ?thesis
  proof cases
    case short
    with c show ?thesis by auto
  next
    case full
    from c have "SetDoc k md \<in> set (run_calls (after_delete env w) (after_create env w))"
      unfolding full after_create_run_calls after_delete_calls [OF it fin] by auto
    from after_create_calls [OF it this] show ?thesis by auto
  qed
qed

lemma folder_path_ok_x: "folder_path_ok (env_ok ''x/'')"
  by (simp add: folder_path_ok_def)

subsection \<open>One item among the others\<close>

lemma old_pre:
  "old_untouched a cs1 ls1 d d1 \<Longrightarrow> old_handled env a h ls2 d1 d2 \<Longrightarrow>
   old_handled env a h (ls1 @ ls2) d d2"
  by (auto simp: old_untouched_def old_handled_def split: option.splits)

lemma old_post:
  "old_handled env a h ls1 d d1 \<Longrightarrow> old_untouched a cs2 ls2 d1 d2 \<Longrightarrow>
   old_handled env a h (ls1 @ ls2) d d2"
  by (auto simp: old_untouched_def old_handled_def split: option.splits)

lemma old_untouched_append:
  "old_untouched a cs1 ls1 d d1 \<Longrightarrow> old_untouched a cs2 ls2 d1 d2 \<Longrightarrow>
   old_untouched a (cs1 @ cs2) (ls1 @ ls2) d d2"
  by (auto simp: old_untouched_def)

lemma new_pre:
  "new_untouched env b cs1 ls1 d d1 \<Longrightarrow> new_handled env b r hv cs2 ls2 d1 d2 \<Longrightarrow>
   new_handled env b r hv (cs1 @ cs2) (ls1 @ ls2) d d2"
  by (auto simp: new_untouched_def new_handled_def split: option.splits sum.splits)

lemma new_post:
  "new_handled env b r hv cs1 ls1 d d1 \<Longrightarrow> new_untouched env b cs2 ls2 d1 d2 \<Longrightarrow>
   new_handled env b r hv (cs1 @ cs2) (ls1 @ ls2) d d2"
  by (auto simp: new_untouched_def new_handled_def split: option.splits sum.splits)

lemma new_untouched_append:
  "new_untouched env b cs1 ls1 d d1 \<Longrightarrow> new_untouched env b cs2 ls2 d1 d2 \<Longrightarrow>
   new_untouched env b (cs1 @ cs2) (ls1 @ ls2) d d2"
  by (auto simp: new_untouched_def)

subsection \<open>The loop over the identifiers to delete, item by item\<close>

lemma delete_one_handled:
  "old_handled env a (calls u) (run_out u (delete_one env a u)) (docs u)
     (docs (delete_one env a u))"
  by (simp add: old_handled_def delete_one_def document_delete_def Let_def run_out_def
      split: option.splits)

lemma delete_one_untouched:
  "x \<noteq> a \<Longrightarrow>
   old_untouched a (run_calls u (delete_one env x u)) (run_out u (delete_one env x u)) (docs u)
     (docs (delete_one env x u))"
  by (simp add: old_untouched_def delete_one_def document_delete_def Let_def run_out_def
      run_calls_def split: option.splits)

lemma delete_one_extends: "extends u (delete_one env x u)"
  using delete_one_effect [of u env x] by blast

lemma delete_loop_run:
  "run_calls u (delete_loop env (x # xs) u) =
     run_calls u (delete_one env x u) @
     run_calls (delete_one env x u) (delete_loop env xs (delete_one env x u))"
  "run_out u (delete_loop env (x # xs) u) =
     run_out u (delete_one env x u) @
     run_out (delete_one env x u) (delete_loop env xs (delete_one env x u))"
  using run_calls_trans [OF delete_one_extends delete_loop_extends]
    run_out_trans [OF delete_one_extends delete_loop_extends] by simp_all

lemma delete_loop_untouched:
  "a \<notin> set ids \<Longrightarrow>
   old_untouched a (run_calls u (delete_loop env ids u)) (run_out u (delete_loop env ids u))
     (docs u) (docs (delete_loop env ids u))"
proof (induction ids arbitrary: u)
  case Nil
  then show ?case by (simp add: old_untouched_def)
next
  case (Cons x xs)
  then have "x \<noteq> a" "a \<notin> set xs" by auto
  from old_untouched_append [OF delete_one_untouched [OF this(1)] Cons.IH [OF this(2)]]
  show ?case unfolding delete_loop_run by simp
qed

lemma delete_loop_item:
  assumes "distinct ids" and "a \<in> set ids"
  shows "\<exists>h rest. run_calls u (delete_loop env ids u) = h @ DeleteDoc a # rest \<and>
     DeleteDoc a \<notin> set h \<and> DeleteDoc a \<notin> set rest \<and>
     old_handled env a (calls u @ h) (run_out u (delete_loop env ids u)) (docs u)
       (docs (delete_loop env ids u))"
  using assms
proof (induction ids arbitrary: u)
  case Nil
  then show ?case by simp
next
  case (Cons x xs)
  let ?u1 = "delete_one env x u"
  let ?U = "delete_loop env xs ?u1"
  have c1: "run_calls u ?u1 = [DeleteDoc x]" using delete_one_effect [of u env x] by blast
  have cu1: "calls ?u1 = calls u @ [DeleteDoc x]"
    using extends_calls [OF delete_one_extends [where u = u and env = env and x = x]] c1 by simp
  show ?case
  proof (cases "a = x")
    case True
    with Cons.prems have nx: "x \<notin> set xs" by simp
    note un = delete_loop_untouched [OF nx, of ?u1 env]
    from old_post [OF delete_one_handled un]
    have "old_handled env x (calls u @ []) (run_out u (delete_loop env (x # xs) u)) (docs u)
       (docs (delete_loop env (x # xs) u))"
      unfolding delete_loop_run by simp
    moreover have "run_calls u (delete_loop env (x # xs) u) = [] @ DeleteDoc x # run_calls ?u1 ?U"
      unfolding delete_loop_run c1 by simp
    moreover have "DeleteDoc x \<notin> set (run_calls ?u1 ?U)" using un by (simp add: old_untouched_def)
    ultimately show ?thesis unfolding True
      by (intro exI [of _ "[]"] exI [of _ "run_calls ?u1 ?U"]) simp
  next
    case False
    with Cons.prems have ax: "a \<in> set xs" and d: "distinct xs" by auto
    from Cons.IH [OF d ax, of ?u1] obtain h rest where
      dec: "run_calls ?u1 ?U = h @ DeleteDoc a # rest" "DeleteDoc a \<notin> set h" "DeleteDoc a \<notin> set rest"
      and hd: "old_handled env a (calls ?u1 @ h) (run_out ?u1 ?U) (docs ?u1) (docs ?U)"
      by blast
    have xa: "x \<noteq> a" using False by simp
    from old_pre [OF delete_one_untouched [OF xa] hd]
    have "old_handled env a (calls u @ DeleteDoc x # h) (run_out u (delete_loop env (x # xs) u))
       (docs u) (docs (delete_loop env (x # xs) u))"
      unfolding delete_loop_run cu1 by simp
    moreover have "run_calls u (delete_loop env (x # xs) u) = (DeleteDoc x # h) @ DeleteDoc a # rest"
      unfolding delete_loop_run c1 dec by simp
    moreover have "DeleteDoc a \<notin> set (DeleteDoc x # h)" using dec(2) False by simp
    ultimately show ?thesis using dec(3)
      by (intro exI [of _ "DeleteDoc x # h"] exI [of _ rest]) simp
  qed
qed

subsection \<open>The loop over the new identifiers, item by item\<close>

text \<open>The outcome of \<^verbatim>\<open>get_image_metadata\<close> depends on the bucket and on the calls made so
  far only.\<close>

lemma download_as_bytes_cong:
  assumes "buckets y = buckets x" and "calls y = calls x"
    and "download_as_bytes env p x = (r, v)"
  shows "\<exists>v'. download_as_bytes env p y = (r, v') \<and> calls v' = calls v \<and> buckets v' = buckets v"
  using assms by (auto simp: download_as_bytes_def Let_def split: option.splits)

lemma call_gemini_cong:
  assumes "calls y = calls x" and "call_gemini env img x = (r, v)"
  shows "\<exists>v'. call_gemini env img y = (r, v') \<and> calls v' = calls v"
  using assms by (auto simp: call_gemini_def Let_def split: sum.splits)

lemma translate_tags_cong:
  assumes "calls y = calls x" and "translate_tags env tags x = (r, v)"
  shows "\<exists>v'. translate_tags env tags y = (r, v') \<and> calls v' = calls v"
  using assms by (auto simp: translate_tags_def Let_def split: sum.splits if_splits)

lemma gim_cong:
  assumes b: "buckets y = buckets x" and c: "calls y = calls x"
    and g: "get_image_metadata env p x = (r, v)"
  shows "\<exists>v'. get_image_metadata env p y = (r, v') \<and> calls v' = calls v"
proof -
  obtain r1 x1 where dx: "download_as_bytes env p x = (r1, x1)"
    by (cases "download_as_bytes env p x")
  from download_as_bytes_cong [OF b c dx] obtain y1 where
    dy: "download_as_bytes env p y = (r1, y1)" and c1: "calls y1 = calls x1" by blast
  show ?thesis
  proof (cases r1)
    case (Inl e)
    with g dx dy c1 show ?thesis by (simp add: get_image_metadata_def)
  next
    case content: (Inr content)
    show ?thesis
    proof (cases "image_open env content")
      case (Inl e)
      with g dx dy c1 content show ?thesis by (simp add: get_image_metadata_def)
    next
      case img: (Inr img)
      obtain r2 x2 where gx: "call_gemini env img x1 = (r2, x2)"
        by (cases "call_gemini env img x1")
      from call_gemini_cong [OF c1 gx] obtain y2 where
        gy: "call_gemini env img y1 = (r2, y2)" and c2: "calls y2 = calls x2" by blast
      show ?thesis
      proof (cases r2)
        case (Inl e)
        with g dx dy content img gx gy c2 show ?thesis by (simp add: get_image_metadata_def)
      next
        case resp: (Inr resp)
        show ?thesis
        proof (cases "response_text resp")
          case (Inl e)
          with g dx dy content img gx gy c2 resp show ?thesis
            by (simp add: get_image_metadata_def)
        next
          case tg: (Inr tg)
          obtain r3 x3 where tx: "translate_tags env (all_tags_en_of tg) x2 = (r3, x3)"
            by (cases "translate_tags env (all_tags_en_of tg) x2")
          from translate_tags_cong [OF c2 tx] obtain y3 where
            ty: "translate_tags env (all_tags_en_of tg) y2 = (r3, y3)"
            and c3: "calls y3 = calls x3" by blast
          from g dx dy content img gx gy resp tg tx ty c3 show ?thesis
            by (cases r3) (auto simp: get_image_metadata_def Let_def)
        qed
      qed
    qed
  qed
qed

lemma process_one_handled:
  assumes g: "get_image_metadata env (BUCKET_FOLDER_PATH env @ b)
                (print_line (LogProcessing i n (BUCKET_FOLDER_PATH env @ b)) u) = (r, v)"
  shows "new_handled env b r (calls v)
           (run_calls u (process_one env n i b u)) (run_out u (process_one env n i b u))
           (docs u) (docs (process_one env n i b u))"
proof -
  let ?p = "BUCKET_FOLDER_PATH env @ b"
  let ?u1 = "print_line (LogProcessing i n ?p) u"
  note gf = gim_frame [OF g]
  from gf obtain cs where cs: "run_calls ?u1 v = DownloadBytes (BUCKET_NAME env) ?p # cs"
    "\<forall>c\<in>set cs. is_generate c \<or> is_translate c" by auto
  from gf have e: "extends ?u1 v" and d: "docs v = docs u"
    and o: "\<forall>l\<in>set (run_out ?u1 v). \<exists>e. l = LogGeminiError e" by auto
  have cv: "calls v = calls u @ DownloadBytes (BUCKET_NAME env) ?p # cs"
    using extends_calls [OF e] cs(1) by simp
  obtain ls where ls: "run_out ?u1 v = ls" by simp
  have ov: "out v = out u @ LogProcessing i n ?p # ls"
    using extends_out [OF e] ls by simp
  have ns: "SetDoc k md \<notin> set cs" for k md using cs(2) by auto
  have nl: "LogSaved k \<notin> set ls" for k using o ls by auto
  have ne: "LogProcessError q e \<notin> set ls" for q e using o ls by auto
  show ?thesis
  proof (cases r)
    case (Inl e)
    then have w': "process_one env n i b u = print_line (LogProcessError ?p e) v"
      using g by (simp add: process_one_def Let_def)
    show ?thesis unfolding w' new_handled_def Inl
      by (simp add: run_calls_def run_out_def cv ov ns nl d)
  next
    case (Inr md)
    with g have gs: "get_image_metadata env ?p ?u1 = (Inr md, v)" by simp
    from gim_success [OF gs] have md: "file_id md = basename ?p" "file_name md = ?p"
      and ro: "ls = []" using ls by auto
    show ?thesis
    proof (cases "firestore_set_fault env (calls v) (basename ?p) md")
      case None
      then have w': "process_one env n i b u =
          print_line (LogSaved (basename ?p))
            ((issue (SetDoc (basename ?p) md) v)\<lparr>docs := (docs v)(basename ?p \<mapsto> md)\<rparr>)"
        using gs md by (simp add: process_one_def save_metadata_to_firestore_def Let_def)
      show ?thesis unfolding w' new_handled_def Inr
        by (simp add: run_calls_def run_out_def cv ov ro md None [unfolded cv] issue_def print_line_def)
    next
      case (Some e)
      then have w': "process_one env n i b u =
          print_line (LogProcessError ?p e) (issue (SetDoc (basename ?p) md) v)"
        using gs md by (simp add: process_one_def save_metadata_to_firestore_def Let_def)
      show ?thesis unfolding w' new_handled_def Inr
        by (simp add: run_calls_def run_out_def cv ov ro md Some [unfolded cv] d)
    qed
  qed
qed

text \<open>The lines that one iteration prints.\<close>

lemma process_one_lines:
  assumes "l \<in> set (run_out u (process_one env n i x u))"
  shows "l = LogProcessing i n (BUCKET_FOLDER_PATH env @ x) \<or> (\<exists>e. l = LogGeminiError e) \<or>
         (\<exists>e. l = LogProcessError (BUCKET_FOLDER_PATH env @ x) e) \<or>
         l = LogSaved (basename (BUCKET_FOLDER_PATH env @ x))"
proof -
  let ?p = "BUCKET_FOLDER_PATH env @ x"
  let ?u1 = "print_line (LogProcessing i n ?p) u"
  obtain r v where g: "get_image_metadata env ?p ?u1 = (r, v)"
    by (cases "get_image_metadata env ?p ?u1")
  note gf = gim_frame [OF g]
  from gf have e: "extends ?u1 v"
    and o: "\<forall>l\<in>set (run_out ?u1 v). \<exists>e. l = LogGeminiError e" by auto
  obtain ls where ls: "run_out ?u1 v = ls" by simp
  have ov: "out v = out u @ LogProcessing i n ?p # ls"
    using extends_out [OF e] ls by simp
  from o ls have o': "\<forall>l\<in>set ls. \<exists>e. l = LogGeminiError e" by simp
  show ?thesis
  proof (cases r)
    case (Inl e)
    then have w': "process_one env n i x u = print_line (LogProcessError ?p e) v"
      using g by (simp add: process_one_def Let_def)
    from assms o' show ?thesis unfolding w' by (auto simp: run_out_def ov)
  next
    case (Inr md)
    with g have gs: "get_image_metadata env ?p ?u1 = (Inr md, v)" by simp
    from gim_success [OF gs] have md: "file_id md = basename ?p"
      and ro: "ls = []" using ls by auto
    show ?thesis
    proof (cases "firestore_set_fault env (calls v) (basename ?p) md")
      case None
      then have w': "process_one env n i x u =
          print_line (LogSaved (basename ?p))
            ((issue (SetDoc (basename ?p) md) v)\<lparr>docs := (docs v)(basename ?p \<mapsto> md)\<rparr>)"
        using gs md by (simp add: process_one_def save_metadata_to_firestore_def Let_def)
      from assms show ?thesis unfolding w'
        by (auto simp: run_out_def ov ro issue_def print_line_def)
    next
      case (Some e)
      then have w': "process_one env n i x u =
          print_line (LogProcessError ?p e) (issue (SetDoc (basename ?p) md) v)"
        using gs md by (simp add: process_one_def save_metadata_to_firestore_def Let_def)
      from assms show ?thesis unfolding w' by (auto simp: run_out_def ov ro)
    qed
  qed
qed

lemma process_one_untouched:
  assumes "x \<noteq> b"
    and "basename (BUCKET_FOLDER_PATH env @ x) \<noteq> basename (BUCKET_FOLDER_PATH env @ b)"
  shows "new_untouched env b (run_calls u (process_one env n i x u))
           (run_out u (process_one env n i x u)) (docs u) (docs (process_one env n i x u))"
proof -
  from process_one_calls [of u env n i x] obtain cs where
    cs: "run_calls u (process_one env n i x u) =
           DownloadBytes (BUCKET_NAME env) (BUCKET_FOLDER_PATH env @ x) # cs"
    and ty: "\<forall>c\<in>set cs. is_generate c \<or> is_translate c \<or>
           (\<exists>md. c = SetDoc (basename (BUCKET_FOLDER_PATH env @ x)) md \<and>
                 file_name md = BUCKET_FOLDER_PATH env @ x \<and>
                 file_id md = basename (BUCKET_FOLDER_PATH env @ x) \<and>
                 map_of (buckets u (BUCKET_NAME env)) (BUCKET_FOLDER_PATH env @ x) \<noteq> None)"
    by blast
  have 1: "DownloadBytes (BUCKET_NAME env) (BUCKET_FOLDER_PATH env @ b)
             \<notin> set (run_calls u (process_one env n i x u))"
    unfolding cs using ty assms(1) by auto
  have 2: "SetDoc (basename (BUCKET_FOLDER_PATH env @ b)) md
             \<notin> set (run_calls u (process_one env n i x u))" for md
    unfolding cs using ty assms(2) by auto
  have 3: "LogProcessError (BUCKET_FOLDER_PATH env @ b) e
             \<notin> set (run_out u (process_one env n i x u))" for e
    using process_one_lines [of "LogProcessError (BUCKET_FOLDER_PATH env @ b) e" u env n i x]
      assms(1) by auto
  have 4: "LogSaved (basename (BUCKET_FOLDER_PATH env @ b))
             \<notin> set (run_out u (process_one env n i x u))"
    using process_one_lines [of "LogSaved (basename (BUCKET_FOLDER_PATH env @ b))" u env n i x]
      assms(2) by auto
  have 5: "docs (process_one env n i x u) (basename (BUCKET_FOLDER_PATH env @ b)) =
           docs u (basename (BUCKET_FOLDER_PATH env @ b))"
    using process_one_docs [of env n i x u] assms(2) by auto
  from 1 2 3 4 5 show ?thesis unfolding new_untouched_def by blast
qed

lemma process_loop_untouched:
  assumes "b \<notin> set ids"
    and "basename (BUCKET_FOLDER_PATH env @ b)
           \<notin> (\<lambda>f. basename (BUCKET_FOLDER_PATH env @ f)) ` set ids"
  shows "new_untouched env b (run_calls u (process_loop env n i ids u))
           (run_out u (process_loop env n i ids u)) (docs u) (docs (process_loop env n i ids u))"
  using assms
proof (induction ids arbitrary: u i)
  case Nil
  then show ?case by (simp add: new_untouched_def)
next
  case (Cons x xs)
  then have x: "x \<noteq> b"
    "basename (BUCKET_FOLDER_PATH env @ x) \<noteq> basename (BUCKET_FOLDER_PATH env @ b)"
    and xs: "b \<notin> set xs"
    "basename (BUCKET_FOLDER_PATH env @ b)
           \<notin> (\<lambda>f. basename (BUCKET_FOLDER_PATH env @ f)) ` set xs"
    by auto
  from new_untouched_append [OF process_one_untouched [OF x] Cons.IH [OF xs]]
  show ?case unfolding process_loop_run_calls process_loop_run_out by simp
qed

lemma at_history_simps [simp]:
  "calls (at_history w h) = h" "buckets (at_history w h) = buckets w"
  "docs (at_history w h) = docs w" "out (at_history w h) = out w"
  by (simp_all add: at_history_def)

lemma process_loop_item:
  assumes "distinct ids"
    and "inj_on (\<lambda>f. basename (BUCKET_FOLDER_PATH env @ f)) (set ids)"
    and "b \<in> set ids"
  shows "\<exists>h rest r v.
     run_calls u (process_loop env n i ids u) =
       h @ DownloadBytes (BUCKET_NAME env) (BUCKET_FOLDER_PATH env @ b) # rest \<and>
     DownloadBytes (BUCKET_NAME env) (BUCKET_FOLDER_PATH env @ b) \<notin> set h \<and>
     DownloadBytes (BUCKET_NAME env) (BUCKET_FOLDER_PATH env @ b) \<notin> set rest \<and>
     get_image_metadata env (BUCKET_FOLDER_PATH env @ b) (at_history u (calls u @ h)) = (r, v) \<and>
     new_handled env b r (calls v) (run_calls u (process_loop env n i ids u))
       (run_out u (process_loop env n i ids u)) (docs u) (docs (process_loop env n i ids u))"
  using assms
proof (induction ids arbitrary: u i)
  case Nil
  then show ?case by simp
next
  case (Cons x xs)
  let ?key = "\<lambda>f. basename (BUCKET_FOLDER_PATH env @ f)"
  let ?D = "DownloadBytes (BUCKET_NAME env) (BUCKET_FOLDER_PATH env @ b)"
  let ?u1 = "process_one env n i x u"
  let ?U = "process_loop env n (Suc i) xs ?u1"
  have e1: "extends u ?u1" by (rule process_one_extends)
  have cu1: "calls ?u1 = calls u @ run_calls u ?u1" using extends_calls [OF e1] .
  have bu1: "buckets ?u1 = buckets u" using extends_buckets [OF e1] .
  from Cons.prems have d: "distinct xs" and inj: "inj_on ?key (set xs)"
    and nx: "x \<notin> set xs" and kx: "?key x \<notin> ?key ` set xs"
    by (auto simp: inj_on_def)
  show ?case
  proof (cases "b = x")
    case True
    let ?u0 = "print_line (LogProcessing i n (BUCKET_FOLDER_PATH env @ x)) u"
    obtain r v0 where g0: "get_image_metadata env (BUCKET_FOLDER_PATH env @ x) ?u0 = (r, v0)"
      by (cases "get_image_metadata env (BUCKET_FOLDER_PATH env @ x) ?u0")
    have "\<exists>v. get_image_metadata env (BUCKET_FOLDER_PATH env @ x) (at_history u (calls u @ []))
             = (r, v) \<and> calls v = calls v0"
      by (rule gim_cong [OF _ _ g0]) simp_all
    then obtain v where g: "get_image_metadata env (BUCKET_FOLDER_PATH env @ x)
        (at_history u (calls u @ [])) = (r, v)" and cv: "calls v = calls v0" by blast
    note un = process_loop_untouched [OF nx kx, of u1 n "Suc i" for u1]
    from new_post [OF process_one_handled [OF g0] un [of ?u1]]
    have hd: "new_handled env x r (calls v) (run_calls u (process_loop env n i (x # xs) u))
       (run_out u (process_loop env n i (x # xs) u)) (docs u) (docs (process_loop env n i (x # xs) u))"
      unfolding process_loop_run_calls process_loop_run_out cv by simp
    from process_one_calls [of u env n i x] obtain cs where
      cs: "run_calls u ?u1 = DownloadBytes (BUCKET_NAME env) (BUCKET_FOLDER_PATH env @ x) # cs"
      and ty: "\<forall>c\<in>set cs. is_generate c \<or> is_translate c \<or>
           (\<exists>md. c = SetDoc (basename (BUCKET_FOLDER_PATH env @ x)) md \<and>
                 file_name md = BUCKET_FOLDER_PATH env @ x \<and>
                 file_id md = basename (BUCKET_FOLDER_PATH env @ x) \<and>
                 map_of (buckets u (BUCKET_NAME env)) (BUCKET_FOLDER_PATH env @ x) \<noteq> None)"
      by blast
    have n1: "DownloadBytes (BUCKET_NAME env) (BUCKET_FOLDER_PATH env @ x) \<notin> set cs"
      using ty by auto
    have n2: "DownloadBytes (BUCKET_NAME env) (BUCKET_FOLDER_PATH env @ x)
        \<notin> set (run_calls ?u1 ?U)"
      using un [of ?u1] by (simp add: new_untouched_def)
    have dec: "run_calls u (process_loop env n i (x # xs) u) =
        [] @ DownloadBytes (BUCKET_NAME env) (BUCKET_FOLDER_PATH env @ x) # (cs @ run_calls ?u1 ?U)"
      unfolding process_loop_run_calls cs by simp
    from dec n1 n2 g hd show ?thesis unfolding True
      by (intro exI [of _ "[]"] exI [of _ "cs @ run_calls ?u1 ?U"] exI [of _ r] exI [of _ v]) simp
  next
    case False
    with Cons.prems have bx: "b \<in> set xs" by simp
    from Cons.IH [OF d inj bx, of ?u1 "Suc i"] obtain h rest r v1 where
      dec: "run_calls ?u1 ?U = h @ ?D # rest" "?D \<notin> set h" "?D \<notin> set rest"
      and g1: "get_image_metadata env (BUCKET_FOLDER_PATH env @ b)
                 (at_history ?u1 (calls ?u1 @ h)) = (r, v1)"
      and hd: "new_handled env b r (calls v1) (run_calls ?u1 ?U) (run_out ?u1 ?U)
                 (docs ?u1) (docs ?U)"
      by blast
    have "\<exists>v. get_image_metadata env (BUCKET_FOLDER_PATH env @ b)
             (at_history u (calls u @ run_calls u ?u1 @ h)) = (r, v) \<and> calls v = calls v1"
      by (rule gim_cong [OF _ _ g1]) (simp_all add: bu1 cu1)
    then obtain v where g: "get_image_metadata env (BUCKET_FOLDER_PATH env @ b)
        (at_history u (calls u @ run_calls u ?u1 @ h)) = (r, v)" and cv: "calls v = calls v1"
      by blast
    have xb: "x \<noteq> b" using False by simp
    from Cons.prems bx xb have kb: "?key x \<noteq> ?key b" by (auto simp: inj_on_def)
    note pre = process_one_untouched [OF xb kb, of u n i]
    from new_pre [OF pre hd]
    have hd': "new_handled env b r (calls v) (run_calls u (process_loop env n i (x # xs) u))
       (run_out u (process_loop env n i (x # xs) u)) (docs u) (docs (process_loop env n i (x # xs) u))"
      unfolding process_loop_run_calls process_loop_run_out cv by simp
    have n1: "?D \<notin> set (run_calls u ?u1 @ h)"
      using pre dec(2) by (simp add: new_untouched_def)
    have dec': "run_calls u (process_loop env n i (x # xs) u) = (run_calls u ?u1 @ h) @ ?D # rest"
      unfolding process_loop_run_calls dec by simp
    from dec' n1 dec(3) g hd' show ?thesis
      by (intro exI [of _ "run_calls u ?u1 @ h"] exI [of _ rest] exI [of _ r] exI [of _ v]) simp
  qed
qed

subsection \<open>One item in the whole run\<close>

lemma delete_loop_lines:
  "l \<in> set (run_out u (delete_loop env ids u)) \<Longrightarrow>
   (\<exists>d. l = LogDeleted d) \<or> (\<exists>d e. l = LogDeleteError d e)"
proof (induction ids arbitrary: u)
  case Nil
  then show ?case by simp
next
  case (Cons x xs)
  from Cons.prems consider "l \<in> set (run_out u (delete_one env x u))"
    | "l \<in> set (run_out (delete_one env x u) (delete_loop env xs (delete_one env x u)))"
    unfolding delete_loop_run by auto
  then show ?case
  proof cases
    case 1
    with delete_one_effect [of u env x] show ?thesis by auto
  next
    case 2
    then show ?thesis by (rule Cons.IH)
  qed
qed

lemma delete_removed_lines:
  assumes "l \<in> set (run_out u (delete_removed env S u))"
  shows "l = LogNoneRemoved \<or> l = LogDeleting (card S) \<or> (\<exists>d. l = LogDeleted d) \<or>
         (\<exists>d e. l = LogDeleteError d e)"
proof (cases "S = {}")
  case True
  with assms show ?thesis by (simp add: delete_removed_def)
next
  case False
  from assms delete_loop_lines [of l "print_line (LogDeleting (card S)) u" env "set_iter env S"]
  show ?thesis unfolding delete_removed_out [OF False] by auto
qed

lemma process_loop_lines:
  "l \<in> set (run_out u (process_loop env n i ids u)) \<Longrightarrow>
   (\<exists>j q. l = LogProcessing j n q) \<or> (\<exists>e. l = LogGeminiError e) \<or>
   (\<exists>q e. l = LogProcessError q e) \<or> (\<exists>k. l = LogSaved k)"
proof (induction ids arbitrary: u i)
  case Nil
  then show ?case by simp
next
  case (Cons x xs)
  from Cons.prems consider "l \<in> set (run_out u (process_one env n i x u))"
    | "l \<in> set (run_out (process_one env n i x u)
                  (process_loop env n (Suc i) xs (process_one env n i x u)))"
    unfolding process_loop_run_out by auto
  then show ?case
  proof cases
    case 1
    from process_one_lines [OF this] show ?thesis by blast
  next
    case 2
    then show ?thesis by (rule Cons.IH)
  qed
qed

lemma process_new_lines:
  assumes "l \<in> set (run_out u (process_new env S u))"
  shows "l = LogNoneNew \<or> l = LogNewCount (card S) \<or> l = LogProcessingStart \<or>
     (\<exists>j q. l = LogProcessing j (card S) q) \<or> (\<exists>e. l = LogGeminiError e) \<or>
     (\<exists>q e. l = LogProcessError q e) \<or> (\<exists>k. l = LogSaved k)"
proof (cases "S = {}")
  case True
  with assms show ?thesis by (simp add: process_new_def)
next
  case False
  from assms have "l = LogNewCount (card S) \<or> l = LogProcessingStart \<or>
     l \<in> set (run_out (print_line LogProcessingStart (print_line (LogNewCount (card S)) u))
       (process_loop env (card S) 1 (set_iter env S)
          (print_line LogProcessingStart (print_line (LogNewCount (card S)) u))))"
    unfolding process_new_run(2) [OF False] by auto
  with process_loop_lines show ?thesis by blast
qed

text \<open>An identifier to delete, in a run whose two listings succeed.\<close>

lemma main_old_item:
  assumes it: "set_iter_ok env" and fin: "finite (dom (docs w))"
    and a: "a \<in> to_delete env w"
  defines "w' \<equiv> print_line LogDone (after_create env w)"
  shows "\<exists>h rest. run_calls w w' = h @ DeleteDoc a # rest \<and>
     DeleteDoc a \<notin> set h \<and> DeleteDoc a \<notin> set rest \<and>
     old_handled env a (calls w @ h) (run_out w w') (docs w) (docs w')"
proof -
  let ?S = "to_delete env w"
  let ?two = "[ListBlobs (BUCKET_NAME env) (BUCKET_FOLDER_PATH env), StreamDocs]"
  let ?al = "after_listings env w"
  let ?u0 = "print_line (LogDeleting (card ?S)) ?al"
  let ?ad = "after_delete env w"
  let ?ac = "after_create env w"
  from a have ne: "?S \<noteq> {}" by auto
  have fS: "finite ?S" using fin by (rule finite_to_delete)
  have ad: "?ad = delete_loop env (set_iter env ?S) ?u0"
    using ne by (simp add: after_delete_def delete_removed_def)
  have dist: "distinct (set_iter env ?S)" and mem: "a \<in> set (set_iter env ?S)"
    using set_iter_okD [OF it fS] a by simp_all
  from delete_loop_item [OF dist mem, of ?u0 env] obtain h rest where
    dec: "run_calls ?u0 ?ad = h @ DeleteDoc a # rest" "DeleteDoc a \<notin> set h"
      "DeleteDoc a \<notin> set rest"
    and hd: "old_handled env a (calls ?u0 @ h) (run_out ?u0 ?ad) (docs ?u0) (docs ?ad)"
    unfolding ad [symmetric] by blast
  have c0: "calls ?u0 = calls w @ ?two" by simp
  have rc0: "run_calls ?al ?ad = run_calls ?u0 ?ad" by (simp add: run_calls_def)
  have ro0: "run_out ?al ?ad = LogDeleting (card ?S) # run_out ?u0 ?ad"
    using delete_removed_out [OF ne, of ?al env]
    unfolding after_delete_def [symmetric] ad [symmetric] .
  have rc: "run_calls w w' = ?two @ run_calls ?u0 ?ad @ run_calls ?ad ?ac"
    unfolding w'_def after_create_run_calls rc0 ..
  have ro: "run_out w w' =
      [LogStart (GEMINI_MODEL env), LogDeleting (card ?S)] @ run_out ?u0 ?ad @
      (run_out ?ad ?ac @ [LogDone])"
    unfolding w'_def after_create_run_out ro0 by simp
  have pre: "old_untouched a ?two [LogStart (GEMINI_MODEL env), LogDeleting (card ?S)]
      (docs w) (docs ?u0)"
    by (simp add: old_untouched_def)
  have nd: "\<not> is_delete c" if "c \<in> set (run_calls ?ad ?ac)" for c
    using after_create_calls [OF it that] not_delete by fastforce
  then have nc: "DeleteDoc a \<notin> set (run_calls ?ad ?ac)" by force
  have nl: "LogDeleted a \<notin> set (run_out ?ad ?ac)" "LogDeleteError a e \<notin> set (run_out ?ad ?ac)"
    for e
    using process_new_lines [of _ ?ad env "to_create env w"] unfolding after_create_def [symmetric]
    by blast+
  from after_create_docs [OF it, of w a] record_not_to_delete [of _ env w] a
  have dd: "docs ?ac a = docs ?ad a" by auto
  have post: "old_untouched a (run_calls ?ad ?ac) (run_out ?ad ?ac @ [LogDone]) (docs ?ad) (docs w')"
    using nc nl dd by (simp add: old_untouched_def w'_def)
  from old_post [OF old_pre [OF pre hd] post]
  have "old_handled env a (calls w @ ?two @ h) (run_out w w') (docs w) (docs w')"
    unfolding ro c0 by simp
  moreover have "run_calls w w' = (?two @ h) @ DeleteDoc a # (rest @ run_calls ?ad ?ac)"
    unfolding rc dec by simp
  moreover have "DeleteDoc a \<notin> set (?two @ h)" using dec(2) by simp
  moreover have "DeleteDoc a \<notin> set (rest @ run_calls ?ad ?ac)" using dec(3) nc by simp
  ultimately show ?thesis
    by (intro exI [of _ "?two @ h"] exI [of _ "rest @ run_calls ?ad ?ac"]) simp
qed

text \<open>A new identifier, in a run whose two listings succeed.\<close>

lemma main_new_item:
  assumes it: "set_iter_ok env" and fin: "finite (dom (docs w))"
    and b: "b \<in> to_create env w"
  defines "w' \<equiv> print_line LogDone (after_create env w)"
  shows "\<exists>h rest r v.
     run_calls w w' = h @ DownloadBytes (BUCKET_NAME env) (BUCKET_FOLDER_PATH env @ b) # rest \<and>
     DownloadBytes (BUCKET_NAME env) (BUCKET_FOLDER_PATH env @ b) \<notin> set h \<and>
     DownloadBytes (BUCKET_NAME env) (BUCKET_FOLDER_PATH env @ b) \<notin> set rest \<and>
     get_image_metadata env (BUCKET_FOLDER_PATH env @ b) (at_history w (calls w @ h)) = (r, v) \<and>
     new_handled env b r (calls v) (run_calls w w') (run_out w w') (docs (after_delete env w))
       (docs w')"
proof -
  let ?S = "to_create env w"
  let ?D = "DownloadBytes (BUCKET_NAME env) (BUCKET_FOLDER_PATH env @ b)"
  let ?two = "[ListBlobs (BUCKET_NAME env) (BUCKET_FOLDER_PATH env), StreamDocs]"
  let ?al = "after_listings env w"
  let ?ad = "after_delete env w"
  let ?u0 = "print_line LogProcessingStart (print_line (LogNewCount (card ?S)) ?ad)"
  let ?ac = "after_create env w"
  let ?dels = "map DeleteDoc (set_iter env (to_delete env w))"
  from b have ne: "?S \<noteq> {}" by auto
  have ac: "?ac = process_loop env (card ?S) 1 (set_iter env ?S) ?u0"
    using ne by (simp add: after_create_def process_new_def)
  have dist: "distinct (set_iter env ?S)" and mem: "b \<in> set (set_iter env ?S)"
    and st: "set (set_iter env ?S) = ?S"
    using set_iter_okD [OF it finite_to_create] b by simp_all
  have inj: "inj_on (\<lambda>f. basename (BUCKET_FOLDER_PATH env @ f)) (set (set_iter env ?S))"
    unfolding st by (rule key_inj_on_present [of _ env w]) (auto simp: to_create_def)
  from process_loop_item [OF dist inj mem, of ?u0 "card ?S" 1] obtain h rest r v1 where
    dec: "run_calls ?u0 ?ac = h @ ?D # rest" "?D \<notin> set h" "?D \<notin> set rest"
    and g1: "get_image_metadata env (BUCKET_FOLDER_PATH env @ b)
               (at_history ?u0 (calls ?u0 @ h)) = (r, v1)"
    and hd: "new_handled env b r (calls v1) (run_calls ?u0 ?ac) (run_out ?u0 ?ac)
               (docs ?u0) (docs ?ac)"
    unfolding ac [symmetric] by blast
  have cad: "calls ?ad = calls w @ ?two @ ?dels"
    using extends_calls [OF after_delete_extends, of env w] after_delete_calls [OF it fin]
    by simp
  have c0: "calls ?u0 = calls w @ ?two @ ?dels" using cad by simp
  have b0: "buckets ?u0 = buckets w" by simp
  have "\<exists>v. get_image_metadata env (BUCKET_FOLDER_PATH env @ b)
           (at_history w (calls w @ (?two @ ?dels @ h))) = (r, v) \<and> calls v = calls v1"
    by (rule gim_cong [OF _ _ g1]) (simp_all add: cad)
  then obtain v where g: "get_image_metadata env (BUCKET_FOLDER_PATH env @ b)
      (at_history w (calls w @ (?two @ ?dels @ h))) = (r, v)" and cv: "calls v = calls v1"
    by blast
  have rc0: "run_calls ?ad ?ac = run_calls ?u0 ?ac" by (simp add: run_calls_def)
  have ro0: "run_out ?ad ?ac = LogNewCount (card ?S) # LogProcessingStart # run_out ?u0 ?ac"
    using process_new_run(2) [OF ne, of ?ad env]
    unfolding after_create_def [symmetric] ac [symmetric] .
  have rc: "run_calls w w' = (?two @ ?dels) @ run_calls ?u0 ?ac"
    unfolding w'_def after_create_run_calls rc0 after_delete_calls [OF it fin] by simp
  have ro: "run_out w w' =
      ((LogStart (GEMINI_MODEL env) # run_out ?al ?ad) @
        [LogNewCount (card ?S), LogProcessingStart]) @ run_out ?u0 ?ac @ [LogDone]"
    unfolding w'_def after_create_run_out ro0 by simp
  have nl: "LogProcessError q e \<notin> set (run_out ?al ?ad)" "LogSaved k \<notin> set (run_out ?al ?ad)"
    for q e k
    using delete_removed_lines [of _ ?al env "to_delete env w"]
    unfolding after_delete_def [symmetric] by blast+
  have pre: "new_untouched env b (?two @ ?dels)
      ((LogStart (GEMINI_MODEL env) # run_out ?al ?ad) @ [LogNewCount (card ?S), LogProcessingStart])
      (docs ?ad) (docs ?u0)"
    using nl by (auto simp: new_untouched_def)
  have post: "new_untouched env b [] [LogDone] (docs ?ac) (docs w')"
    by (simp add: new_untouched_def w'_def)
  from new_post [OF new_pre [OF pre hd] post]
  have "new_handled env b r (calls v) (run_calls w w') (run_out w w') (docs ?ad) (docs w')"
    unfolding ro rc cv by simp
  moreover have "run_calls w w' = (?two @ ?dels @ h) @ ?D # rest" unfolding rc dec by simp
  moreover have "?D \<notin> set (?two @ ?dels @ h)" using dec(2) by auto
  ultimately show ?thesis using dec(3) g
    by (intro exI [of _ "?two @ ?dels @ h"] exI [of _ rest] exI [of _ r] exI [of _ v]) simp
qed

lemma split_at_unique:
  assumes "xs @ x # ys = xs' @ x # ys'" and "x \<notin> set xs" and "x \<notin> set xs'"
  shows "xs = xs'"
  using assms
proof (induction xs arbitrary: xs')
  case Nil
  then show ?case by (cases xs') auto
next
  case (Cons a xs)
  then show ?case by (cases xs') auto
qed

text \<open>The outcome of \<^verbatim>\<open>get_image_metadata\<close> in terms of the answers of the services:
  the first step that fails gives its error, and a record is returned when no step fails.\<close>

lemma gim_outcome:
  assumes "get_image_metadata env p u = (r, v)"
  shows "case storage_download_fault env (calls u) p of
       Some e \<Rightarrow> r = Inl e
     | None \<Rightarrow>
    (case map_of (buckets u (BUCKET_NAME env)) p of
       None \<Rightarrow> r = Inl (ServiceError ''NotFound'')
     | Some content \<Rightarrow>
    (case image_open env content of
       Inl e \<Rightarrow> r = Inl e
     | Inr img \<Rightarrow>
    (case generate_content env (calls u @ [DownloadBytes (BUCKET_NAME env) p]) img of
       Inl e \<Rightarrow> r = Inl e
     | Inr resp \<Rightarrow>
    (case response_text resp of
       Inl e \<Rightarrow> r = Inl e
     | Inr tg \<Rightarrow>
    (if all_tags_en_of tg = [] then \<exists>md. r = Inr md
     else
    (case translate env
            (calls u @ [DownloadBytes (BUCKET_NAME env) p, GenerateContent GEMINI_PROMPT img])
            (all_tags_en_of tg) ''pt'' of
       Inl e \<Rightarrow> r = Inl e
     | Inr ts \<Rightarrow>
    (case translated_texts ts of
       Inl e \<Rightarrow> r = Inl e
     | Inr pt \<Rightarrow> \<exists>md. r = Inr md)))))))"
  using assms
  by (auto simp: get_image_metadata_def download_as_bytes_def call_gemini_def translate_tags_def
        Let_def
      split: sum.splits option.splits prod.splits if_splits)

section \<open>The claims\<close>

text \<open>
  Claim C7 (tag parsing). The tags of a record are computed from the text of the model's
  answer by \<open>all_tags_en_of\<close>, which splits the text on commas, trims the white space of
  each segment and drops the segments that are empty after trimming. Splitting is exact: the
  segments joined with commas give the text back and no segment contains a comma. Trimming
  removes white space only, and leaves no white space at either end. An empty text gives no
  tag, and \<^verbatim>\<open>"cat, dog, outdoor,"\<close> gives \<^verbatim>\<open>["cat", "dog", "outdoor"]\<close>.
\<close>

theorem C7_tag_parsing:
  "(get_image_metadata env p w = (Inr md, w') \<longrightarrow>
      (\<exists>h img resp txt. generate_content env h img = Inr resp \<and> response_text resp = Inr txt \<and>
         tags_en md = all_tags_en_of txt))
   \<and> all_tags_en_of txt = filter (\<lambda>t. t \<noteq> []) (map strip (split CHR '','' txt))
   \<and> join CHR '','' (split CHR '','' txt) = txt
   \<and> (\<forall>seg\<in>set (split CHR '','' txt). CHR '','' \<notin> set seg)
   \<and> (\<exists>a b. s = a @ strip s @ b \<and> (\<forall>c\<in>set a. isspace c) \<and> (\<forall>c\<in>set b. isspace c))
   \<and> (strip s \<noteq> [] \<longrightarrow> \<not> isspace (hd (strip s)) \<and> \<not> isspace (last (strip s)))
   \<and> all_tags_en_of [] = []
   \<and> all_tags_en_of ''cat, dog, outdoor,'' = [''cat'', ''dog'', ''outdoor'']"
proof (intro conjI impI)
  assume "get_image_metadata env p w = (Inr md, w')"
  from gim_success [OF this]
  show "\<exists>h img resp txt. generate_content env h img = Inr resp \<and> response_text resp = Inr txt \<and>
         tags_en md = all_tags_en_of txt"
    by blast
next
  show "all_tags_en_of txt = filter (\<lambda>t. t \<noteq> []) (map strip (split CHR '','' txt))"
    by (rule all_tags_en_of_eq)
  show "join CHR '','' (split CHR '','' txt) = txt" by (rule join_split)
  show "\<forall>seg\<in>set (split CHR '','' txt). CHR '','' \<notin> set seg" using split_no_sep by blast
  show "\<exists>a b. s = a @ strip s @ b \<and> (\<forall>c\<in>set a. isspace c) \<and> (\<forall>c\<in>set b. isspace c)"
    by (rule strip_decomp)
  show "all_tags_en_of [] = []" by (simp add: all_tags_en_of_def)
  show "all_tags_en_of ''cat, dog, outdoor,'' = [''cat'', ''dog'', ''outdoor'']"
    by (simp add: all_tags_en_of_def parse_tags_def strip_def isspace_def)
next
  assume "strip s \<noteq> []"
  then show "\<not> isspace (hd (strip s))" by (rule strip_hd)
next
  assume "strip s \<noteq> []"
  then show "\<not> isspace (last (strip s))" by (rule strip_last)
qed

text \<open>The property at a concrete run: the record computed for \<^verbatim>\<open>a.jpg\<close>.\<close>

theorem C7_tag_parsing_witness:
  "get_image_metadata (env_ok []) ''a.jpg'' w_scenario =
     (Inr record_a, w_scenario\<lparr>calls := calls_a\<rparr>)
   \<and> tags_en record_a = all_tags_en_of ''cat, dog, outdoor,''
   \<and> CHR ''d'' \<in> set ''dog'' \<and> strip ''  dog '' = ''dog'' \<and> strip ''  dog '' \<noteq> []
   \<and> \<not> isspace (hd (strip ''  dog '')) \<and> \<not> isspace (last (strip ''  dog ''))
   \<and> '' dog'' \<in> set (split CHR '','' ''cat, dog, outdoor,'') \<and> CHR '','' \<notin> set '' dog''"
proof -
  have g: "get_image_metadata (env_ok []) ''a.jpg'' w_scenario =
     (Inr record_a, w_scenario\<lparr>calls := calls_a\<rparr>)"
    by (simp add: get_image_metadata_def download_as_bytes_def call_gemini_def translate_tags_def
        all_tags_en_of_def parse_tags_def strip_def isspace_def basename_def issue_def
        env_ok_def w_scenario_def record_a_def calls_a_def Let_def)
  have s: "strip ''  dog '' = ''dog''" by (simp add: strip_def isspace_def)
  have ne: "strip ''  dog '' \<noteq> []" by (simp add: s)
  have t: "tags_en record_a = all_tags_en_of ''cat, dog, outdoor,''"
    by (simp add: record_a_def all_tags_en_of_def parse_tags_def strip_def isspace_def)
  have d: "CHR ''d'' \<in> set ''dog''" by simp
  from C7_tag_parsing [of "env_ok []" "''a.jpg''" w_scenario record_a
      "w_scenario\<lparr>calls := calls_a\<rparr>" "''cat, dog, outdoor,''" "''  dog ''"] ne
  have "\<not> isspace (hd (strip ''  dog '')) \<and> \<not> isspace (last (strip ''  dog ''))
      \<and> (\<forall>seg\<in>set (split CHR '','' ''cat, dog, outdoor,''). CHR '','' \<notin> set seg)"
    by blast
  moreover have "'' dog'' \<in> set (split CHR '','' ''cat, dog, outdoor,'')" by simp
  ultimately show ?thesis using g s ne t d by blast
qed

text \<open>
  Claim C8 (listing). When the listing call does not fail, \<open>list_images_in_bucket\<close> returns
  exactly the set of the base names of the listed objects (those whose name starts with the
  prefix) whose name ends in \<^verbatim>\<open>.jpg\<close>, \<^verbatim>\<open>.jpeg\<close> or \<^verbatim>\<open>.png\<close> and differs from the prefix.
  A base name is the part of the name after its last slash, so no full path is returned;
  the comparison of the extension is a comparison of characters, hence case-sensitive.
\<close>

theorem C8_list_images:
  assumes "storage_list_fault env (calls w) = None"
  shows "fst (list_images_in_bucket env bucket pfx w) =
           Inr (basename ` {n \<in> set (list_blobs w bucket pfx).
                  (endswith n ''.jpg'' \<or> endswith n ''.jpeg'' \<or> endswith n ''.png'') \<and> n \<noteq> pfx})
         \<and> set (list_blobs w bucket pfx) = {n \<in> fst ` set (buckets w bucket). \<exists>rest. n = pfx @ rest}
         \<and> (\<forall>n. CHR ''/'' \<notin> set (basename n) \<and>
                 (\<exists>d. n = d @ basename n \<and> (d = [] \<or> last d = CHR ''/'')))
         \<and> (\<forall>n suf. endswith n suf \<longleftrightarrow> (\<exists>pre. n = pre @ suf))"
proof (intro conjI)
  show "fst (list_images_in_bucket env bucket pfx w) =
           Inr (basename ` {n \<in> set (list_blobs w bucket pfx).
                  (endswith n ''.jpg'' \<or> endswith n ''.jpeg'' \<or> endswith n ''.png'') \<and> n \<noteq> pfx})"
    using assms
    by (simp add: list_images_in_bucket_def Let_def collect_files_eq endswith_any_image)
  show "set (list_blobs w bucket pfx) = {n \<in> fst ` set (buckets w bucket). \<exists>rest. n = pfx @ rest}"
    by (auto simp: list_blobs_def startswith_iff)
  show "\<forall>n. CHR ''/'' \<notin> set (basename n) \<and>
                 (\<exists>d. n = d @ basename n \<and> (d = [] \<or> last d = CHR ''/''))"
    using basename_no_slash basename_decomp by blast
  show "\<forall>n suf. endswith n suf \<longleftrightarrow> (\<exists>pre. n = pre @ suf)"
    using endswith_iff by blast
qed

text \<open>The property on a folder with a marker object, an upper-case extension, a nested
  object, a text file and an object outside the folder.\<close>

theorem C8_list_images_witness:
  "storage_list_fault (env_ok ''p/'') (calls w_listing) = None \<and>
   fst (list_images_in_bucket (env_ok ''p/'') ''photos'' ''p/'' w_listing) = Inr {''a.jpg'', ''c.png''}"
proof -
  have h: "storage_list_fault (env_ok ''p/'') (calls w_listing) = None" by (simp add: env_ok_def)
  have v: "basename ` {n \<in> set (list_blobs w_listing ''photos'' ''p/'').
                  (endswith n ''.jpg'' \<or> endswith n ''.jpeg'' \<or> endswith n ''.png'') \<and> n \<noteq> ''p/''}
           = {''a.jpg'', ''c.png''}"
    unfolding set_filter [symmetric] list.set_map [symmetric]
    by (simp add: list_blobs_def w_listing_def startswith_def endswith_def basename_def)
  from C8_list_images [OF h, of "''photos''" "''p/''"] h v show ?thesis by simp
qed

text \<open>
  Claim C6 (translate step). A call of \<open>get_image_metadata\<close> sends at most one request to the
  translation service, and then with the whole list of tags. When it returns a record: with
  no tag the service is not called and \<open>tags_pt\<close> is empty; with \<open>N\<close> tags the service is
  called once with all of them, \<open>tags_pt\<close> has length \<open>N\<close>, and its \<open>i\<close>-th element is the
  \<^verbatim>\<open>translatedText\<close> of the answer to the \<open>i\<close>-th tag. The service is assumed to keep its
  contract (one answer per input, in order).
\<close>

theorem C6_translate_step:
  assumes "get_image_metadata env p w = (r, w')"
    and "translation_aligned env"
  shows "(filter is_translate (run_calls w w') = [] \<or>
          (\<exists>txt. all_tags_en_of txt \<noteq> [] \<and>
             filter is_translate (run_calls w w') = [Translate (all_tags_en_of txt) ''pt'']))
     \<and> (r = Inr md \<longrightarrow>
          (tags_en md = [] \<longrightarrow>
             tags_pt md = [] \<and> filter is_translate (run_calls w w') = []) \<and>
          (tags_en md \<noteq> [] \<longrightarrow>
             filter is_translate (run_calls w w') = [Translate (tags_en md) ''pt''] \<and>
             length (tags_pt md) = length (tags_en md) \<and>
             (\<exists>h ts. translate env h (tags_en md) ''pt'' = Inr ts \<and>
                (\<forall>i<length (tags_en md).
                   (ts ! i) ''input'' = Some (tags_en md ! i) \<and>
                   (ts ! i) ''translatedText'' = Some (tags_pt md ! i)))))"
proof (intro conjI impI)
  show "filter is_translate (run_calls w w') = [] \<or>
          (\<exists>txt. all_tags_en_of txt \<noteq> [] \<and>
             filter is_translate (run_calls w w') = [Translate (all_tags_en_of txt) ''pt''])"
    using gim_translate_calls [OF assms(1)] .
next
  assume "r = Inr md" and e: "tags_en md = []"
  with assms(1) have g: "get_image_metadata env p w = (Inr md, w')" by simp
  from gim_success [OF g] e show "tags_pt md = []" by auto
  from gim_success [OF g] e show "filter is_translate (run_calls w w') = []" by auto
next
  assume "r = Inr md" and ne: "tags_en md \<noteq> []"
  with assms(1) have g: "get_image_metadata env p w = (Inr md, w')" by simp
  from gim_success [OF g] ne obtain h ts where
    c: "filter is_translate (run_calls w w') = [Translate (tags_en md) ''pt'']"
    and t: "translate env h (tags_en md) ''pt'' = Inr ts"
    and tt: "translated_texts ts = Inr (tags_pt md)"
    by auto
  from assms(2) t have al: "length ts = length (tags_en md)"
    "\<forall>i<length (tags_en md). (ts ! i) ''input'' = Some (tags_en md ! i)"
    unfolding translation_aligned_def by blast+
  from translated_texts_nth [OF tt] have l: "length (tags_pt md) = length ts"
    and n: "\<forall>i<length ts. (ts ! i) ''translatedText'' = Some (tags_pt md ! i)" by auto
  show "filter is_translate (run_calls w w') = [Translate (tags_en md) ''pt'']" by (rule c)
  show "length (tags_pt md) = length (tags_en md)" using l al by simp
  show "\<exists>h ts. translate env h (tags_en md) ''pt'' = Inr ts \<and>
                (\<forall>i<length (tags_en md).
                   (ts ! i) ''input'' = Some (tags_en md ! i) \<and>
                   (ts ! i) ''translatedText'' = Some (tags_pt md ! i))"
    using t al n by auto
qed

text \<open>The property at two concrete runs: three tags, and an empty answer of the model.\<close>

theorem C6_translate_step_witness:
  "get_image_metadata (env_ok []) ''a.jpg'' w_scenario =
     (Inr record_a, w_scenario\<lparr>calls := calls_a\<rparr>)
   \<and> translation_aligned (env_ok [])
   \<and> tags_en record_a \<noteq> []
   \<and> filter is_translate (run_calls w_scenario (w_scenario\<lparr>calls := calls_a\<rparr>)) =
       [Translate [''cat'', ''dog'', ''outdoor''] ''pt'']
   \<and> length (tags_pt record_a) = 3
   \<and> get_image_metadata env_silent ''a.jpg'' w_scenario =
       (Inr record_silent,
        w_scenario\<lparr>calls := [DownloadBytes ''photos'' ''a.jpg'',
                               GenerateContent GEMINI_PROMPT (Image ''A'')]\<rparr>)
   \<and> translation_aligned env_silent
   \<and> tags_en record_silent = [] \<and> tags_pt record_silent = []
   \<and> filter is_translate
        (run_calls w_scenario
           (w_scenario\<lparr>calls := [DownloadBytes ''photos'' ''a.jpg'',
                                  GenerateContent GEMINI_PROMPT (Image ''A'')]\<rparr>)) = []"
proof -
  have g: "get_image_metadata (env_ok []) ''a.jpg'' w_scenario =
     (Inr record_a, w_scenario\<lparr>calls := calls_a\<rparr>)"
    by (simp add: get_image_metadata_def download_as_bytes_def call_gemini_def translate_tags_def
        all_tags_en_of_def parse_tags_def strip_def isspace_def basename_def issue_def
        env_ok_def w_scenario_def record_a_def calls_a_def Let_def)
  have g': "get_image_metadata env_silent ''a.jpg'' w_scenario =
       (Inr record_silent,
        w_scenario\<lparr>calls := [DownloadBytes ''photos'' ''a.jpg'',
                               GenerateContent GEMINI_PROMPT (Image ''A'')]\<rparr>)"
    by (simp add: get_image_metadata_def download_as_bytes_def call_gemini_def translate_tags_def
        all_tags_en_of_def basename_def issue_def
        env_ok_def env_silent_def w_scenario_def record_silent_def Let_def)
  have ne: "tags_en record_a \<noteq> []" and en: "tags_en record_a = [''cat'', ''dog'', ''outdoor'']"
    by (simp_all add: record_a_def)
  have e: "tags_en record_silent = []" by (simp add: record_silent_def)
  from C6_translate_step [OF g translation_aligned_env_ok, of record_a] ne en
  have 1: "filter is_translate (run_calls w_scenario (w_scenario\<lparr>calls := calls_a\<rparr>)) =
       [Translate [''cat'', ''dog'', ''outdoor''] ''pt''] \<and> length (tags_pt record_a) = 3"
    by simp
  from C6_translate_step [OF g' translation_aligned_env_silent, of record_silent] e
  have 2: "tags_pt record_silent = [] \<and> filter is_translate
        (run_calls w_scenario
           (w_scenario\<lparr>calls := [DownloadBytes ''photos'' ''a.jpg'',
                                  GenerateContent GEMINI_PROMPT (Image ''A'')]\<rparr>)) = []"
    by simp
  from g g' ne e 1 2 translation_aligned_env_ok [of "[]"] translation_aligned_env_silent
  show ?thesis by blast
qed

text \<open>
  Claim C3 (failure of the listing of the store). When the listing of the bucket succeeds
  and the listing of the documents fails, \<open>main\<close> returns normally after two calls, the two
  listings: no document is deleted, no image is downloaded, tagged or translated, no record
  is saved. It prints the start line and the error, and leaves the documents and the bucket
  as they were.
\<close>

theorem C3_store_listing_failure:
  assumes "storage_list_fault env (calls w) = None"
    and "firestore_stream_fault env
           (calls w @ [ListBlobs (BUCKET_NAME env) (BUCKET_FOLDER_PATH env)]) = Some e"
  shows "fst (main env w) = Inr ()
     \<and> run_calls w (snd (main env w)) =
         [ListBlobs (BUCKET_NAME env) (BUCKET_FOLDER_PATH env), StreamDocs]
     \<and> run_out w (snd (main env w)) = [LogStart (GEMINI_MODEL env), LogFirestoreError e]
     \<and> docs (snd (main env w)) = docs w
     \<and> buckets (snd (main env w)) = buckets w"
proof -
  let ?w2 = "after_listings env w"
  have m: "main env w = (Inr (), print_line (LogFirestoreError e) ?w2)"
    using assms by (rule main_stream_fault)
  have e1: "extends w ?w2" by simp
  have e2: "extends ?w2 (print_line (LogFirestoreError e) ?w2)" by simp
  show ?thesis unfolding m
    using run_calls_trans [OF e1 e2] run_out_trans [OF e1 e2] by simp
qed

text \<open>
  The property at a concrete run: a store that is unavailable.
\<close>

theorem C3_store_listing_failure_witness:
  "storage_list_fault env_store_down (calls w_scenario) = None
   \<and> firestore_stream_fault env_store_down
        (calls w_scenario @ [ListBlobs ''photos'' []]) = Some (ServiceError ''unavailable'')
   \<and> fst (main env_store_down w_scenario) = Inr ()
   \<and> run_calls w_scenario (snd (main env_store_down w_scenario)) =
        [ListBlobs ''photos'' [], StreamDocs]
   \<and> docs (snd (main env_store_down w_scenario)) = docs w_scenario
   \<and> buckets (snd (main env_store_down w_scenario)) = buckets w_scenario"
proof -
  have 1: "storage_list_fault env_store_down (calls w_scenario) = None"
    by (simp add: env_store_down_def)
  have 2: "firestore_stream_fault env_store_down
        (calls w_scenario @ [ListBlobs (BUCKET_NAME env_store_down)
           (BUCKET_FOLDER_PATH env_store_down)]) = Some (ServiceError ''unavailable'')"
    by (simp add: env_store_down_def)
  have 3: "BUCKET_NAME env_store_down = ''photos''" "BUCKET_FOLDER_PATH env_store_down = []"
    by (simp_all add: env_store_down_def)
  from C3_store_listing_failure [OF 1 2] 1 2 show ?thesis unfolding 3 by blast
qed

text \<open>
  Claim C1 (the two differences). In a run whose two listings succeed, the identifiers for
  which a deletion is requested are exactly the stored identifiers that are not present in
  the bucket, and the identifiers whose image is fetched are exactly the present
  identifiers that are not stored.
\<close>

theorem C1_reconciler_differences:
  assumes "set_iter_ok env" and "finite (dom (docs w))"
    and "storage_list_fault env (calls w) = None"
    and "firestore_stream_fault env
           (calls w @ [ListBlobs (BUCKET_NAME env) (BUCKET_FOLDER_PATH env)]) = None"
  shows "{a. DeleteDoc a \<in> set (run_calls w (snd (main env w)))} =
           dom (docs w) - present_ids env w
     \<and> {b. DownloadBytes (BUCKET_NAME env) (BUCKET_FOLDER_PATH env @ b)
              \<in> set (run_calls w (snd (main env w)))} =
           present_ids env w - dom (docs w)"
proof -
  have m: "snd (main env w) = print_line LogDone (after_create env w)"
    using main_ok' [OF assms(3,4)] by simp
  have fd: "finite (to_delete env w)" using assms(2) by (rule finite_to_delete)
  have "{a. DeleteDoc a \<in> set (run_calls w (snd (main env w)))} = to_delete env w"
    unfolding m mem_filter_delete [of _ "run_calls w (print_line LogDone (after_create env w))"]
      main_deletes [OF assms(1,2)]
    using set_iter_okD(1) [OF assms(1) fd] by auto
  moreover have "{b. DownloadBytes (BUCKET_NAME env) (BUCKET_FOLDER_PATH env @ b)
              \<in> set (run_calls w (snd (main env w)))} = to_create env w"
    unfolding m mem_filter_download [of _ _ "run_calls w (print_line LogDone (after_create env w))"]
      main_downloads [OF assms(1,2)]
    using set_iter_okD(1) [OF assms(1) finite_to_create [of env w]] by auto
  ultimately show ?thesis by (simp add: to_delete_def to_create_def)
qed

text \<open>
  The scenario of the specification: the bucket holds \<^verbatim>\<open>a.jpg\<close> and \<^verbatim>\<open>b.png\<close>, the store
  \<^verbatim>\<open>b.png\<close> and \<^verbatim>\<open>c.jpg\<close>; the run deletes \<^verbatim>\<open>c.jpg\<close> and processes \<^verbatim>\<open>a.jpg\<close>.
\<close>

theorem C1_reconciler_differences_witness:
  "set_iter_ok (env_ok []) \<and> finite (dom (docs w_scenario))
   \<and> storage_list_fault (env_ok []) (calls w_scenario) = None
   \<and> firestore_stream_fault (env_ok []) (calls w_scenario @ [ListBlobs ''photos'' []]) = None
   \<and> present_ids (env_ok []) w_scenario = {''a.jpg'', ''b.png''}
   \<and> dom (docs w_scenario) = {''b.png'', ''c.jpg''}
   \<and> {a. DeleteDoc a \<in> set (run_calls w_scenario (snd (main (env_ok []) w_scenario)))} = {''c.jpg''}
   \<and> {b. DownloadBytes ''photos'' b
            \<in> set (run_calls w_scenario (snd (main (env_ok []) w_scenario)))} = {''a.jpg''}"
proof -
  have f: "finite (dom (docs w_scenario))" by (simp add: dom_docs_scenario)
  have d1: "{''b.png'', ''c.jpg''} - {''a.jpg'', ''b.png''} = {''c.jpg''}" by auto
  have d2: "{''a.jpg'', ''b.png''} - {''b.png'', ''c.jpg''} = {''a.jpg''}" by auto
  from C1_reconciler_differences [OF set_iter_ok_env_ok f, of "[]"]
  have "{a. DeleteDoc a \<in> set (run_calls w_scenario (snd (main (env_ok []) w_scenario)))} = {''c.jpg''}
   \<and> {b. DownloadBytes ''photos'' b
            \<in> set (run_calls w_scenario (snd (main (env_ok []) w_scenario)))} = {''a.jpg''}"
    by (simp add: present_ids_scenario dom_docs_scenario d1 d2)
  with f set_iter_ok_env_ok [of "[]"] present_ids_scenario dom_docs_scenario
  show ?thesis by simp
qed

text \<open>
  Claim C10 (the path is the folder followed by the identifier). In a run whose two
  listings succeed, the downloads are exactly those of the paths obtained by appending each
  identifier to create, once, to the configured folder, with nothing in between. For a
  listed object, that path is the name of the object exactly when the name is the folder
  followed by a base name (no further slash, and the folder empty or ending with a slash);
  for an object in a sub-folder of the folder the path differs from the object's name.
\<close>

theorem C10_path_by_concatenation:
  assumes "set_iter_ok env" and "finite (dom (docs w))"
    and "storage_list_fault env (calls w) = None"
    and "firestore_stream_fault env
           (calls w @ [ListBlobs (BUCKET_NAME env) (BUCKET_FOLDER_PATH env)]) = None"
  shows "filter is_download (run_calls w (snd (main env w))) =
           map (\<lambda>fid. DownloadBytes (BUCKET_NAME env) (BUCKET_FOLDER_PATH env @ fid))
             (set_iter env (present_ids env w - dom (docs w)))
     \<and> set (set_iter env (present_ids env w - dom (docs w))) = present_ids env w - dom (docs w)
     \<and> distinct (set_iter env (present_ids env w - dom (docs w)))
     \<and> (\<forall>n\<in>set (list_blobs w (BUCKET_NAME env) (BUCKET_FOLDER_PATH env)).
          (BUCKET_FOLDER_PATH env @ basename n = n) \<longleftrightarrow>
          (\<exists>b. n = BUCKET_FOLDER_PATH env @ b \<and> CHR ''/'' \<notin> set b \<and> folder_path_ok env))
     \<and> (\<forall>sub b. sub \<noteq> [] \<longrightarrow>
          BUCKET_FOLDER_PATH env @ basename (BUCKET_FOLDER_PATH env @ sub @ CHR ''/'' # b)
            \<noteq> BUCKET_FOLDER_PATH env @ sub @ CHR ''/'' # b)"
proof (intro conjI ballI allI impI)
  have m: "snd (main env w) = print_line LogDone (after_create env w)"
    using main_ok' [OF assms(3,4)] by simp
  show "filter is_download (run_calls w (snd (main env w))) =
           map (\<lambda>fid. DownloadBytes (BUCKET_NAME env) (BUCKET_FOLDER_PATH env @ fid))
             (set_iter env (present_ids env w - dom (docs w)))"
    unfolding m main_downloads [OF assms(1,2)] by (simp add: to_create_def)
  show "set (set_iter env (present_ids env w - dom (docs w))) = present_ids env w - dom (docs w)"
    using set_iter_okD(1) [OF assms(1) finite_to_create [of env w]] by (simp add: to_create_def)
  show "distinct (set_iter env (present_ids env w - dom (docs w)))"
    using set_iter_okD(2) [OF assms(1) finite_to_create [of env w]] by (simp add: to_create_def)
next
  fix n assume "n \<in> set (list_blobs w (BUCKET_NAME env) (BUCKET_FOLDER_PATH env))"
  then obtain rest where n: "n = BUCKET_FOLDER_PATH env @ rest"
    by (auto simp: list_blobs_def startswith_iff)
  show "(BUCKET_FOLDER_PATH env @ basename n = n) \<longleftrightarrow>
          (\<exists>b. n = BUCKET_FOLDER_PATH env @ b \<and> CHR ''/'' \<notin> set b \<and> folder_path_ok env)"
    unfolding n rejoined_path by auto
next
  fix sub b :: string
  assume "sub \<noteq> []"
  have "CHR ''/'' \<in> set (sub @ CHR ''/'' # b)" by simp
  with rejoined_path [of env "sub @ CHR ''/'' # b"]
  show "BUCKET_FOLDER_PATH env @ basename (BUCKET_FOLDER_PATH env @ sub @ CHR ''/'' # b)
            \<noteq> BUCKET_FOLDER_PATH env @ sub @ CHR ''/'' # b"
    by blast
qed

text \<open>
  The property at a concrete run: the only image is \<^verbatim>\<open>x/sub/a.jpg\<close>, the run fetches
  \<^verbatim>\<open>x/a.jpg\<close>.
\<close>

theorem C10_path_by_concatenation_witness:
  "set_iter_ok (env_ok ''x/'') \<and> finite (dom (docs w_nested))
   \<and> storage_list_fault (env_ok ''x/'') (calls w_nested) = None
   \<and> firestore_stream_fault (env_ok ''x/'') (calls w_nested @ [ListBlobs ''photos'' ''x/'']) = None
   \<and> ''x/sub/a.jpg'' \<in> set (list_blobs w_nested ''photos'' ''x/'')
   \<and> present_ids (env_ok ''x/'') w_nested - dom (docs w_nested) = {''a.jpg''}
   \<and> filter is_download (run_calls w_nested (snd (main (env_ok ''x/'') w_nested))) =
        [DownloadBytes ''photos'' ''x/a.jpg'']
   \<and> ''x/'' @ basename ''x/sub/a.jpg'' \<noteq> ''x/sub/a.jpg''
   \<and> ''sub'' \<noteq> []"
proof -
  have f: "finite (dom (docs w_nested))" by (simp add: w_nested_def)
  have l: "''x/sub/a.jpg'' \<in> set (list_blobs w_nested ''photos'' ''x/'')"
    by (simp add: list_blobs_def w_nested_def startswith_def)
  have p: "present_ids (env_ok ''x/'') w_nested = {''a.jpg''}"
    unfolding present_ids_eq set_filter [symmetric] list.set_map [symmetric]
    by (simp add: list_blobs_def w_nested_def startswith_def endswith_any_def endswith_def
        basename_def)
  have d: "dom (docs w_nested) = {}" by (simp add: w_nested_def)
  have pd: "present_ids (env_ok ''x/'') w_nested - dom (docs w_nested) = {''a.jpg''}"
    unfolding p d by simp
  have it: "set_iter (env_ok ''x/'') {''a.jpg''} = [''a.jpg'']" by (simp add: env_ok_def)
  note c10 = C10_path_by_concatenation [OF set_iter_ok_env_ok f, of "''x/''"]
  from c10 have 1: "filter is_download (run_calls w_nested (snd (main (env_ok ''x/'') w_nested))) =
        [DownloadBytes ''photos'' ''x/a.jpg'']"
    unfolding pd it by simp
  have 2: "''x/'' @ basename ''x/sub/a.jpg'' \<noteq> ''x/sub/a.jpg''" by (simp add: basename_def)
  from f l pd 1 2 set_iter_ok_env_ok [of "''x/''"] show ?thesis by simp
qed

text \<open>
  Claim C2 as stated (after a successful run the keys of the store are the identifiers
  present in storage) does not hold for every configured folder. With the folder \<^verbatim>\<open>p\<close>,
  which does not end with a slash, and the objects \<^verbatim>\<open>pa.jpg\<close> and \<^verbatim>\<open>ppa.jpg\<close>, of which the
  second has a record, the run returns normally and prints no error; the identifier
  \<^verbatim>\<open>pa.jpg\<close> is processed through the path \<^verbatim>\<open>ppa.jpg\<close>, whose record is keyed by the base name
  of that path, so \<^verbatim>\<open>pa.jpg\<close> is present in storage and has no record at the end.
\<close>

theorem C2_store_matches_storage_counterexample:
  "main (env_ok ''p'') w_p = (Inr (), w_p_after) \<and>
   filter is_error_line (run_out w_p w_p_after) = [] \<and>
   ''pa.jpg'' \<in> present_ids (env_ok ''p'') w_p_after \<and>
   docs w_p_after ''pa.jpg'' = None \<and>
   dom (docs w_p_after) \<noteq> present_ids (env_ok ''p'') w_p_after"
proof -
  have b: "buckets w_p_after = buckets w_p" by (simp add: w_p_def w_p_after_def)
  have p: "present_ids (env_ok ''p'') w_p_after = {''pa.jpg'', ''ppa.jpg''}"
    unfolding present_ids_buckets [OF b] by (rule present_ids_p)
  have o: "filter is_error_line (run_out w_p w_p_after) = []"
    by (simp add: run_out_def w_p_def w_p_after_def)
  have d: "docs w_p_after ''pa.jpg'' = None" by (simp add: w_p_after_def)
  from d have "''pa.jpg'' \<notin> dom (docs w_p_after)" by (simp add: domIff)
  then have "dom (docs w_p_after) \<noteq> present_ids (env_ok ''p'') w_p_after"
    unfolding p by blast
  with main_p o d show ?thesis unfolding p by simp
qed

text \<open>
  Claim C2 (the store matches the storage), for a configured folder that is empty or ends
  with a slash. After a run that returns normally and prints no error line, the keys of
  the store are exactly the identifiers present in storage. Every present identifier has
  its record (the store maps a key to one record): the record it had before the run when
  it had one, and otherwise a record written by the run, whose \<^verbatim>\<open>file_id\<close> is the identifier
  and whose \<^verbatim>\<open>file_name\<close> is the folder followed by the identifier.
\<close>

theorem C2_store_matches_storage:
  assumes "set_iter_ok env" and "finite (dom (docs w))" and "folder_path_ok env"
    and "main env w = (Inr (), w')"
    and "\<forall>l\<in>set (run_out w w'). \<not> is_error_line l"
  shows "dom (docs w') = present_ids env w' \<and>
         (\<forall>fid\<in>present_ids env w'. \<exists>md. docs w' fid = Some md \<and>
            (if fid \<in> dom (docs w) then docs w fid = Some md
             else file_id md = fid \<and> file_name md = BUCKET_FOLDER_PATH env @ fid))"
proof -
  note s = clean_run_synced [OF assms]
  have "\<exists>md. docs w' fid = Some md \<and>
            (if fid \<in> dom (docs w) then docs w fid = Some md
             else file_id md = fid \<and> file_name md = BUCKET_FOLDER_PATH env @ fid)"
    if "fid \<in> present_ids env w" for fid
  proof (cases "fid \<in> dom (docs w)")
    case True
    with s(3) [OF that True] show ?thesis by auto
  next
    case False
    with s(4) [OF that False] show ?thesis by auto
  qed
  then show ?thesis unfolding s(1,2) by blast
qed

text \<open>
  The property at the scenario of the specification: after the run the store holds
  \<^verbatim>\<open>a.jpg\<close>, with the record written by the run, and \<^verbatim>\<open>b.png\<close>, with the record it had.
\<close>

theorem C2_store_matches_storage_witness:
  "main (env_ok []) w_scenario = (Inr (), w_scenario_after) \<and>
   filter is_error_line (run_out w_scenario w_scenario_after) = [] \<and>
   dom (docs w_scenario_after) = present_ids (env_ok []) w_scenario_after \<and>
   dom (docs w_scenario_after) = {''a.jpg'', ''b.png''} \<and>
   docs w_scenario_after ''a.jpg'' = Some record_a \<and>
   docs w_scenario_after ''b.png'' = docs w_scenario ''b.png''"
proof -
  have o: "filter is_error_line (run_out w_scenario w_scenario_after) = []"
    by (simp add: run_out_def w_scenario_def w_scenario_after_def)
  then have c: "\<forall>l\<in>set (run_out w_scenario w_scenario_after). \<not> is_error_line l"
    by (simp add: filter_empty_conv)
  have f: "finite (dom (docs w_scenario))" by (simp add: dom_docs_scenario)
  have d: "dom (docs w_scenario_after) = {''a.jpg'', ''b.png''}"
    by (auto simp: w_scenario_after_def)
  have r: "docs w_scenario_after ''a.jpg'' = Some record_a"
    "docs w_scenario_after ''b.png'' = docs w_scenario ''b.png''"
    by (simp_all add: w_scenario_after_def w_scenario_def)
  from C2_store_matches_storage [OF set_iter_ok_env_ok f folder_path_ok_root main_scenario c]
  have "dom (docs w_scenario_after) = present_ids (env_ok []) w_scenario_after" by blast
  with main_scenario o d r show ?thesis by blast
qed

text \<open>
  Claim C5 as stated (a second run after a successful one creates nothing, and an
  identifier both present and stored is left untouched) does not hold for every configured
  folder. With the folder \<^verbatim>\<open>p\<close> and the objects \<^verbatim>\<open>pa.jpg\<close> and \<^verbatim>\<open>ppa.jpg\<close>, the second recorded, the
  first run prints no error and replaces the record of \<^verbatim>\<open>ppa.jpg\<close>, which is both present and
  stored; the second run, over the same bucket, still has \<^verbatim>\<open>pa.jpg\<close> to create and saves a
  record again.
\<close>

theorem C5_idempotence_counterexample:
  "main (env_ok ''p'') w_p = (Inr (), w_p_after) \<and>
   filter is_error_line (run_out w_p w_p_after) = [] \<and>
   buckets w_p_after = buckets w_p \<and>
   ''ppa.jpg'' \<in> present_ids (env_ok ''p'') w_p \<inter> dom (docs w_p) \<and>
   docs w_p_after ''ppa.jpg'' \<noteq> docs w_p ''ppa.jpg'' \<and>
   main (env_ok ''p'') w_p_after = (Inr (), w_p_again) \<and>
   to_create (env_ok ''p'') w_p_after = {''pa.jpg''} \<and>
   filter is_set (run_calls w_p_after w_p_again) = [SetDoc ''ppa.jpg'' record_p]"
proof -
  have b: "buckets w_p_after = buckets w_p" by (simp add: w_p_def w_p_after_def)
  have o: "filter is_error_line (run_out w_p w_p_after) = []"
    by (simp add: run_out_def w_p_def w_p_after_def)
  have d: "dom (docs w_p) = {''ppa.jpg''}" "dom (docs w_p_after) = {''ppa.jpg''}"
    by (auto simp: w_p_def w_p_after_def)
  have m: "''ppa.jpg'' \<in> present_ids (env_ok ''p'') w_p \<inter> dom (docs w_p)"
    unfolding present_ids_p d by simp
  have r: "docs w_p_after ''ppa.jpg'' \<noteq> docs w_p ''ppa.jpg''"
    by (simp add: w_p_def w_p_after_def record_p_def old_record_def)
  have t: "to_create (env_ok ''p'') w_p_after = {''pa.jpg''}"
    unfolding to_create_def present_ids_buckets [OF b] present_ids_p d by auto
  have c: "filter is_set (run_calls w_p_after w_p_again) = [SetDoc ''ppa.jpg'' record_p]"
    by (simp add: run_calls_def w_p_again_def)
  from main_p o b m r main_p_again t c show ?thesis by blast
qed

text \<open>
  Claim C5 (idempotence), with the condition it needs on the folder. For any run, whatever
  its outcome:
  \<^item> when the keys of the store are the identifiers present in storage, the only calls are
    the two listings and the store is unchanged: no deletion, download, tagging,
    translation or save;
  \<^item> for an identifier both present and stored, no deletion of it is requested and the
    path made of the folder and the identifier is not fetched; when the folder is empty or
    ends with a slash its record is unchanged and no record is saved under it;
  \<^item> when the folder is empty or ends with a slash and the run returns normally without an
    error line, the next run over the world it leaves computes two empty differences,
    makes no call but the two listings, and leaves the store unchanged.
\<close>

theorem C5_idempotence:
  assumes "set_iter_ok env" and "finite (dom (docs w))" and "main env w = (r, w')"
  shows
   "(dom (docs w) = present_ids env w \<longrightarrow>
       set (run_calls w w') \<subseteq>
         {ListBlobs (BUCKET_NAME env) (BUCKET_FOLDER_PATH env), StreamDocs} \<and>
       docs w' = docs w) \<and>
    (\<forall>fid\<in>present_ids env w \<inter> dom (docs w).
       DeleteDoc fid \<notin> set (run_calls w w') \<and>
       DownloadBytes (BUCKET_NAME env) (BUCKET_FOLDER_PATH env @ fid) \<notin> set (run_calls w w') \<and>
       (folder_path_ok env \<longrightarrow>
          docs w' fid = docs w fid \<and> (\<forall>md. SetDoc fid md \<notin> set (run_calls w w')))) \<and>
    (folder_path_ok env \<and> r = Inr () \<and> (\<forall>l\<in>set (run_out w w'). \<not> is_error_line l) \<longrightarrow>
       to_delete env w' = {} \<and> to_create env w' = {} \<and>
       set (run_calls w' (snd (main env w'))) \<subseteq>
         {ListBlobs (BUCKET_NAME env) (BUCKET_FOLDER_PATH env), StreamDocs} \<and>
       docs (snd (main env w')) = docs w')"
proof (intro conjI impI ballI allI)
  assume eq: "dom (docs w) = present_ids env w"
  from run_idle [OF assms(1) eq assms(3)]
  show "set (run_calls w w') \<subseteq>
         {ListBlobs (BUCKET_NAME env) (BUCKET_FOLDER_PATH env), StreamDocs}"
    and "docs w' = docs w" .
next
  fix fid assume "fid \<in> present_ids env w \<inter> dom (docs w)"
  then have p: "fid \<in> present_ids env w" and s: "fid \<in> dom (docs w)" by simp_all
  note k = kept_ids [OF assms(1,2) p s assms(3)]
  show "DeleteDoc fid \<notin> set (run_calls w w')" by (rule k(1))
  show "DownloadBytes (BUCKET_NAME env) (BUCKET_FOLDER_PATH env @ fid) \<notin> set (run_calls w w')"
    by (rule k(2))
  show "docs w' fid = docs w fid" if "folder_path_ok env" using that by (rule k(4))
  show "SetDoc fid md \<notin> set (run_calls w w')" if "folder_path_ok env" for md
    using that by (rule k(3))
next
  assume a: "folder_path_ok env \<and> r = Inr () \<and> (\<forall>l\<in>set (run_out w w'). \<not> is_error_line l)"
  then have run: "main env w = (Inr (), w')" using assms(3) by simp
  from a have fp: "folder_path_ok env"
    and clean: "\<forall>l\<in>set (run_out w w'). \<not> is_error_line l" by simp_all
  note s = clean_run_synced(1,2) [OF assms(1,2) fp run clean]
  have eq: "dom (docs w') = present_ids env w'" unfolding s ..
  then show "to_delete env w' = {}" "to_create env w' = {}"
    by (simp_all add: to_delete_def to_create_def)
  have m: "main env w' = (fst (main env w'), snd (main env w'))" by simp
  from run_idle [OF assms(1) eq m]
  show "set (run_calls w' (snd (main env w'))) \<subseteq>
         {ListBlobs (BUCKET_NAME env) (BUCKET_FOLDER_PATH env), StreamDocs}"
    and "docs (snd (main env w')) = docs w'" .
qed

text \<open>
  The property at the scenario of the specification: the first run leaves \<^verbatim>\<open>b.png\<close>, present
  and stored, as it was; the second run only lists.
\<close>

theorem C5_idempotence_witness:
  "main (env_ok []) w_scenario = (Inr (), w_scenario_after) \<and>
   filter is_error_line (run_out w_scenario w_scenario_after) = [] \<and>
   ''b.png'' \<in> present_ids (env_ok []) w_scenario \<inter> dom (docs w_scenario) \<and>
   DeleteDoc ''b.png'' \<notin> set (run_calls w_scenario w_scenario_after) \<and>
   DownloadBytes ''photos'' ''b.png'' \<notin> set (run_calls w_scenario w_scenario_after) \<and>
   docs w_scenario_after ''b.png'' = docs w_scenario ''b.png'' \<and>
   main (env_ok []) w_scenario_after = (Inr (), w_scenario_again) \<and>
   dom (docs w_scenario_after) = present_ids (env_ok []) w_scenario_after \<and>
   to_delete (env_ok []) w_scenario_after = {} \<and>
   to_create (env_ok []) w_scenario_after = {} \<and>
   run_calls w_scenario_after w_scenario_again = [ListBlobs ''photos'' [], StreamDocs] \<and>
   docs w_scenario_again = docs w_scenario_after"
proof -
  have o: "filter is_error_line (run_out w_scenario w_scenario_after) = []"
    by (simp add: run_out_def w_scenario_def w_scenario_after_def)
  then have c: "\<forall>l\<in>set (run_out w_scenario w_scenario_after). \<not> is_error_line l"
    by (simp add: filter_empty_conv)
  have f: "finite (dom (docs w_scenario))" by (simp add: dom_docs_scenario)
  have b: "buckets w_scenario_after = buckets w_scenario"
    by (simp add: w_scenario_def w_scenario_after_def)
  have d: "dom (docs w_scenario_after) = {''a.jpg'', ''b.png''}"
    by (auto simp: w_scenario_after_def)
  have eq: "dom (docs w_scenario_after) = present_ids (env_ok []) w_scenario_after"
    unfolding d present_ids_buckets [OF b] present_ids_scenario ..
  have f': "finite (dom (docs w_scenario_after))" by (simp add: d)
  have m: "''b.png'' \<in> present_ids (env_ok []) w_scenario \<inter> dom (docs w_scenario)"
    unfolding present_ids_scenario dom_docs_scenario by simp
  have rc: "run_calls w_scenario_after w_scenario_again = [ListBlobs ''photos'' [], StreamDocs]"
    by (simp add: run_calls_def w_scenario_again_def)
  note first = C5_idempotence [OF set_iter_ok_env_ok f main_scenario]
  note second = C5_idempotence [OF set_iter_ok_env_ok f' main_scenario_again]
  from first m folder_path_ok_root
  have kept: "DeleteDoc ''b.png'' \<notin> set (run_calls w_scenario w_scenario_after) \<and>
    DownloadBytes ''photos'' ''b.png'' \<notin> set (run_calls w_scenario w_scenario_after) \<and>
    docs w_scenario_after ''b.png'' = docs w_scenario ''b.png''"
    by (simp del: Int_iff)
  from first folder_path_ok_root c
  have idle: "to_delete (env_ok []) w_scenario_after = {} \<and>
    to_create (env_ok []) w_scenario_after = {}" by blast
  from second eq have same: "docs w_scenario_again = docs w_scenario_after" by blast
  from main_scenario o m kept main_scenario_again eq idle rc same show ?thesis by blast
qed

text \<open>
  Claim C9 as stated (of two objects with the same base name only one yields a record, and
  which path becomes its \<^verbatim>\<open>file_name\<close> is not determined) does not hold in general. With the
  folder \<^verbatim>\<open>x/\<close> and the two images \<^verbatim>\<open>x/s1/a.jpg\<close> and \<^verbatim>\<open>x/s2/a.jpg\<close>, the single identifier
  \<^verbatim>\<open>a.jpg\<close> is processed through the path \<^verbatim>\<open>x/a.jpg\<close>, which names no object: the download
  fails, no record is saved, and neither object yields a record.
\<close>

theorem C9_basename_collision_counterexample:
  "main (env_ok ''x/'') w_collide = (Inr (), w_collide_after) \<and>
   ''x/s1/a.jpg'' \<in> image_objects (env_ok ''x/'') w_collide \<and>
   ''x/s2/a.jpg'' \<in> image_objects (env_ok ''x/'') w_collide \<and>
   basename ''x/s1/a.jpg'' = basename ''x/s2/a.jpg'' \<and>
   present_ids (env_ok ''x/'') w_collide = {''a.jpg''} \<and>
   filter is_set (run_calls w_collide w_collide_after) = [] \<and>
   docs w_collide_after = Map.empty"
proof -
  have i: "image_objects (env_ok ''x/'') w_collide = {''x/s1/a.jpg'', ''x/s2/a.jpg''}"
    by (simp add: image_objects_def list_blobs_def w_collide_def startswith_def
        endswith_any_def endswith_def)
  have b: "basename ''x/s1/a.jpg'' = ''a.jpg''" "basename ''x/s2/a.jpg'' = ''a.jpg''"
    by (simp_all add: basename_def)
  have p: "present_ids (env_ok ''x/'') w_collide = {''a.jpg''}"
    unfolding present_ids_image_objects i by (simp add: b)
  have c: "filter is_set (run_calls w_collide w_collide_after) = []"
    by (simp add: run_calls_def w_collide_def w_collide_after_def)
  have d: "docs w_collide_after = Map.empty" by (simp add: w_collide_after_def)
  from main_collide i b p c d show ?thesis by simp
qed

text \<open>
  Claim C9 (collision of base names), with what the code determines. Two distinct image
  objects of the listing that share a base name give a single identifier, so there are
  fewer identifiers than such objects. In any run no path is fetched twice, and every
  record saved is the record of one identifier to create: its key and its \<^verbatim>\<open>file_id\<close> are
  the base name of its \<^verbatim>\<open>file_name\<close>, and its \<^verbatim>\<open>file_name\<close> is the folder followed by that
  identifier and names an object of the bucket. When the folder is empty or ends with a
  slash the \<^verbatim>\<open>file_name\<close> is the folder followed by the key: it is determined, and of two
  objects with the same base name only the one directly in the folder can yield the record.
\<close>

theorem C9_basename_collision:
  assumes "set_iter_ok env" and "finite (dom (docs w))" and "main env w = (r, w')"
    and "n1 \<in> image_objects env w" and "n2 \<in> image_objects env w"
    and "n1 \<noteq> n2" and "basename n1 = basename n2"
  shows "basename n1 \<in> present_ids env w \<and>
     card (present_ids env w) < card (image_objects env w) \<and>
     distinct (filter is_download (run_calls w w')) \<and>
     (\<forall>k md. SetDoc k md \<in> set (run_calls w w') \<longrightarrow>
        file_id md = k \<and> basename (file_name md) = k \<and>
        (\<exists>fid\<in>to_create env w. file_name md = BUCKET_FOLDER_PATH env @ fid) \<and>
        map_of (buckets w (BUCKET_NAME env)) (file_name md) \<noteq> None \<and>
        (folder_path_ok env \<longrightarrow> file_name md = BUCKET_FOLDER_PATH env @ k))"
proof (intro conjI allI impI)
  from collapse [OF assms(4-7)]
  show "basename n1 \<in> present_ids env w"
    and "card (present_ids env w) < card (image_objects env w)" .
  show "distinct (filter is_download (run_calls w w'))"
    using assms(1-3) by (rule downloads_distinct)
next
  fix k md assume c: "SetDoc k md \<in> set (run_calls w w')"
  from saved_records [OF assms(1-3) c] obtain fid where
    f: "fid \<in> to_create env w" and k: "k = basename (BUCKET_FOLDER_PATH env @ fid)"
    and r: "record_of env w fid md" by blast
  from r show "file_id md = k" "basename (file_name md) = k"
    "map_of (buckets w (BUCKET_NAME env)) (file_name md) \<noteq> None"
    unfolding k by (simp_all add: record_of_def)
  from f r show "\<exists>fid\<in>to_create env w. file_name md = BUCKET_FOLDER_PATH env @ fid"
    by (auto simp: record_of_def)
  show "file_name md = BUCKET_FOLDER_PATH env @ k" if fp: "folder_path_ok env"
  proof -
    from f have "fid \<in> present_ids env w" by (simp add: to_create_def)
    from key_present [OF fp this] k r show ?thesis by (simp add: record_of_def)
  qed
qed

text \<open>
  The property at a concrete run: of \<^verbatim>\<open>x/a.jpg\<close> and \<^verbatim>\<open>x/sub/a.jpg\<close>, the record saved under
  \<^verbatim>\<open>a.jpg\<close> is the one of \<^verbatim>\<open>x/a.jpg\<close>.
\<close>

theorem C9_basename_collision_witness:
  "main (env_ok ''x/'') w_direct = (Inr (), w_direct_after) \<and>
   ''x/a.jpg'' \<in> image_objects (env_ok ''x/'') w_direct \<and>
   ''x/sub/a.jpg'' \<in> image_objects (env_ok ''x/'') w_direct \<and>
   basename ''x/a.jpg'' = basename ''x/sub/a.jpg'' \<and>
   ''a.jpg'' \<in> present_ids (env_ok ''x/'') w_direct \<and>
   card (present_ids (env_ok ''x/'') w_direct) < card (image_objects (env_ok ''x/'') w_direct) \<and>
   SetDoc ''a.jpg'' record_x \<in> set (run_calls w_direct w_direct_after) \<and>
   file_id record_x = ''a.jpg'' \<and> file_name record_x = ''x/a.jpg''"
proof -
  have i: "image_objects (env_ok ''x/'') w_direct = {''x/sub/a.jpg'', ''x/a.jpg''}"
    by (simp add: image_objects_def list_blobs_def w_direct_def startswith_def
        endswith_any_def endswith_def)
  have m: "''x/a.jpg'' \<in> image_objects (env_ok ''x/'') w_direct"
    "''x/sub/a.jpg'' \<in> image_objects (env_ok ''x/'') w_direct"
    unfolding i by simp_all
  have b: "basename ''x/a.jpg'' = ''a.jpg''" "basename ''x/sub/a.jpg'' = ''a.jpg''"
    by (simp_all add: basename_def)
  have f: "finite (dom (docs w_direct))" by (simp add: w_direct_def)
  have c: "SetDoc ''a.jpg'' record_x \<in> set (run_calls w_direct w_direct_after)"
    by (simp add: run_calls_def w_direct_def w_direct_after_def)
  from C9_basename_collision [OF set_iter_ok_env_ok f main_direct m, unfolded b]
    c folder_path_ok_x
  have "''a.jpg'' \<in> present_ids (env_ok ''x/'') w_direct \<and>
    card (present_ids (env_ok ''x/'') w_direct) < card (image_objects (env_ok ''x/'') w_direct) \<and>
    file_id record_x = ''a.jpg'' \<and> file_name record_x = ''x/a.jpg''"
    by auto
  with main_direct m b c show ?thesis by simp
qed

text \<open>
  Claim C4 (isolation of the failures of one item). In a run whose two listings succeed,
  whatever happens to the other identifiers, the run completes and every identifier of both
  batches is handled exactly once, with the outcome that its own handling has at that
  moment of the run.

  \<^item> For every identifier to delete, the deletion is requested once, after some calls \<open>h\<close>
    of the run. If the deletion requested at that moment fails, its error is printed with
    the identifier, no success line is printed and the document is left as it was. If it
    succeeds, the success line is printed, no error line is printed for the identifier and
    the document is gone at the end.
  \<^item> For every identifier to create, its path is fetched once, after some calls \<open>h\<close> of
    the run. If \<^verbatim>\<open>get_image_metadata\<close> fails at that moment, its error is printed with the
    path, nothing is saved under the key and the store keeps no new record there. If it
    returns a record, the save of that record is requested; when the save fails, its
    error is printed with the path and the record is not stored; when it succeeds, that
    record is in the store at the end, the line of the save is printed and no error line
    is printed for the path.

  \<^item> \<^verbatim>\<open>get_image_metadata\<close> fails exactly when one of its steps fails, with the error
    of the first step that fails: the download (a fault of the storage, or no object of
    that name), the opening of the image, the call of the model, the reading of the text of
    its answer, the translation, or the reading of a translated text. It returns a record
    when no step fails.

  So a failure for one image is printed and costs only that image: any other image of the
  batch whose own processing succeeds is persisted.
\<close>

theorem C4_per_item_isolation:
  assumes "set_iter_ok env" and "finite (dom (docs w))"
    and "storage_list_fault env (calls w) = None"
    and "firestore_stream_fault env
           (calls w @ [ListBlobs (BUCKET_NAME env) (BUCKET_FOLDER_PATH env)]) = None"
    and "main env w = (res, w')"
  shows "res = Inr ()
     \<and> (\<forall>a\<in>dom (docs w) - present_ids env w.
          \<exists>h rest.
            run_calls w w' = h @ DeleteDoc a # rest \<and>
            DeleteDoc a \<notin> set h \<and> DeleteDoc a \<notin> set rest \<and>
            (case firestore_delete_fault env (calls w @ h) a of
               Some e \<Rightarrow>
                 LogDeleteError a e \<in> set (run_out w w') \<and>
                 LogDeleted a \<notin> set (run_out w w') \<and>
                 docs w' a = docs w a
             | None \<Rightarrow>
                 LogDeleted a \<in> set (run_out w w') \<and>
                 (\<forall>e. LogDeleteError a e \<notin> set (run_out w w')) \<and>
                 docs w' a = None))
     \<and> (\<forall>b\<in>present_ids env w - dom (docs w).
          \<exists>h rest r v.
            run_calls w w' =
              h @ DownloadBytes (BUCKET_NAME env) (BUCKET_FOLDER_PATH env @ b) # rest \<and>
            DownloadBytes (BUCKET_NAME env) (BUCKET_FOLDER_PATH env @ b) \<notin> set h \<and>
            DownloadBytes (BUCKET_NAME env) (BUCKET_FOLDER_PATH env @ b) \<notin> set rest \<and>
            get_image_metadata env (BUCKET_FOLDER_PATH env @ b) (at_history w (calls w @ h))
              = (r, v) \<and>
            (case r of
               Inl e \<Rightarrow>
                 LogProcessError (BUCKET_FOLDER_PATH env @ b) e \<in> set (run_out w w') \<and>
                 LogSaved (basename (BUCKET_FOLDER_PATH env @ b)) \<notin> set (run_out w w') \<and>
                 (\<forall>md. SetDoc (basename (BUCKET_FOLDER_PATH env @ b)) md
                         \<notin> set (run_calls w w')) \<and>
                 (docs w' (basename (BUCKET_FOLDER_PATH env @ b)) =
                    docs w (basename (BUCKET_FOLDER_PATH env @ b)) \<or>
                  docs w' (basename (BUCKET_FOLDER_PATH env @ b)) = None)
             | Inr md \<Rightarrow>
                 SetDoc (basename (BUCKET_FOLDER_PATH env @ b)) md \<in> set (run_calls w w') \<and>
                 file_name md = BUCKET_FOLDER_PATH env @ b \<and>
                 file_id md = basename (BUCKET_FOLDER_PATH env @ b) \<and>
                 (case firestore_set_fault env (calls v)
                         (basename (BUCKET_FOLDER_PATH env @ b)) md of
                    Some e \<Rightarrow>
                      LogProcessError (BUCKET_FOLDER_PATH env @ b) e \<in> set (run_out w w') \<and>
                      LogSaved (basename (BUCKET_FOLDER_PATH env @ b)) \<notin> set (run_out w w') \<and>
                      (docs w' (basename (BUCKET_FOLDER_PATH env @ b)) =
                         docs w (basename (BUCKET_FOLDER_PATH env @ b)) \<or>
                       docs w' (basename (BUCKET_FOLDER_PATH env @ b)) = None)
                  | None \<Rightarrow>
                      docs w' (basename (BUCKET_FOLDER_PATH env @ b)) = Some md \<and>
                      LogSaved (basename (BUCKET_FOLDER_PATH env @ b)) \<in> set (run_out w w') \<and>
                      (\<forall>e. LogProcessError (BUCKET_FOLDER_PATH env @ b) e
                             \<notin> set (run_out w w')))))
     \<and> (\<forall>p u r v. get_image_metadata env p u = (r, v) \<longrightarrow>
          (case storage_download_fault env (calls u) p of
                 Some e \<Rightarrow> r = Inl e
               | None \<Rightarrow>
              (case map_of (buckets u (BUCKET_NAME env)) p of
                 None \<Rightarrow> r = Inl (ServiceError ''NotFound'')
               | Some content \<Rightarrow>
              (case image_open env content of
                 Inl e \<Rightarrow> r = Inl e
               | Inr img \<Rightarrow>
              (case generate_content env (calls u @ [DownloadBytes (BUCKET_NAME env) p]) img of
                 Inl e \<Rightarrow> r = Inl e
               | Inr resp \<Rightarrow>
              (case response_text resp of
                 Inl e \<Rightarrow> r = Inl e
               | Inr tg \<Rightarrow>
              (if all_tags_en_of tg = [] then \<exists>md. r = Inr md
               else
              (case translate env
                      (calls u @ [DownloadBytes (BUCKET_NAME env) p, GenerateContent GEMINI_PROMPT img])
                      (all_tags_en_of tg) ''pt'' of
                 Inl e \<Rightarrow> r = Inl e
               | Inr ts \<Rightarrow>
              (case translated_texts ts of
                 Inl e \<Rightarrow> r = Inl e
               | Inr pt \<Rightarrow> \<exists>md. r = Inr md)))))))))"
proof (intro conjI ballI)
  show "\<forall>p u r v. get_image_metadata env p u = (r, v) \<longrightarrow>
          (case storage_download_fault env (calls u) p of
                 Some e \<Rightarrow> r = Inl e
               | None \<Rightarrow>
              (case map_of (buckets u (BUCKET_NAME env)) p of
                 None \<Rightarrow> r = Inl (ServiceError ''NotFound'')
               | Some content \<Rightarrow>
              (case image_open env content of
                 Inl e \<Rightarrow> r = Inl e
               | Inr img \<Rightarrow>
              (case generate_content env (calls u @ [DownloadBytes (BUCKET_NAME env) p]) img of
                 Inl e \<Rightarrow> r = Inl e
               | Inr resp \<Rightarrow>
              (case response_text resp of
                 Inl e \<Rightarrow> r = Inl e
               | Inr tg \<Rightarrow>
              (if all_tags_en_of tg = [] then \<exists>md. r = Inr md
               else
              (case translate env
                      (calls u @ [DownloadBytes (BUCKET_NAME env) p, GenerateContent GEMINI_PROMPT img])
                      (all_tags_en_of tg) ''pt'' of
                 Inl e \<Rightarrow> r = Inl e
               | Inr ts \<Rightarrow>
              (case translated_texts ts of
                 Inl e \<Rightarrow> r = Inl e
               | Inr pt \<Rightarrow> \<exists>md. r = Inr md))))))))"
    by (intro allI impI) (rule gim_outcome)
next
  from main_ok' [OF assms(3,4)] assms(5)
  have r: "res = Inr ()" and w': "w' = print_line LogDone (after_create env w)" by simp_all
  show "res = Inr ()" by (rule r)
  {
    fix a assume "a \<in> dom (docs w) - present_ids env w"
    then have a: "a \<in> to_delete env w" by (simp add: to_delete_def)
    from main_old_item [OF assms(1,2) a] obtain h rest where
      "run_calls w w' = h @ DeleteDoc a # rest" "DeleteDoc a \<notin> set h" "DeleteDoc a \<notin> set rest"
      "old_handled env a (calls w @ h) (run_out w w') (docs w) (docs w')"
      unfolding w' by blast
    then show "\<exists>h rest.
            run_calls w w' = h @ DeleteDoc a # rest \<and>
            DeleteDoc a \<notin> set h \<and> DeleteDoc a \<notin> set rest \<and>
            (case firestore_delete_fault env (calls w @ h) a of
               Some e \<Rightarrow>
                 LogDeleteError a e \<in> set (run_out w w') \<and>
                 LogDeleted a \<notin> set (run_out w w') \<and>
                 docs w' a = docs w a
             | None \<Rightarrow>
                 LogDeleted a \<in> set (run_out w w') \<and>
                 (\<forall>e. LogDeleteError a e \<notin> set (run_out w w')) \<and>
                 docs w' a = None)"
      unfolding old_handled_def by blast
  }
  {
    fix b assume "b \<in> present_ids env w - dom (docs w)"
    then have b: "b \<in> to_create env w" by (simp add: to_create_def)
    let ?p = "BUCKET_FOLDER_PATH env @ b"
    let ?D = "DownloadBytes (BUCKET_NAME env) ?p"
    from main_new_item [OF assms(1,2) b] obtain h rest r v where
      dec: "run_calls w w' = h @ ?D # rest" "?D \<notin> set h" "?D \<notin> set rest"
      and g: "get_image_metadata env ?p (at_history w (calls w @ h)) = (r, v)"
      and hd: "new_handled env b r (calls v) (run_calls w w') (run_out w w')
                 (docs (after_delete env w)) (docs w')"
      unfolding w' by blast
    from after_delete_docs [OF assms(1,2), of "basename ?p"]
    have dd: "docs (after_delete env w) (basename ?p) = docs w (basename ?p) \<or>
              docs (after_delete env w) (basename ?p) = None" by auto
    have "case r of
               Inl e \<Rightarrow>
                 LogProcessError ?p e \<in> set (run_out w w') \<and>
                 LogSaved (basename ?p) \<notin> set (run_out w w') \<and>
                 (\<forall>md. SetDoc (basename ?p) md \<notin> set (run_calls w w')) \<and>
                 (docs w' (basename ?p) = docs w (basename ?p) \<or> docs w' (basename ?p) = None)
             | Inr md \<Rightarrow>
                 SetDoc (basename ?p) md \<in> set (run_calls w w') \<and>
                 file_name md = ?p \<and> file_id md = basename ?p \<and>
                 (case firestore_set_fault env (calls v) (basename ?p) md of
                    Some e \<Rightarrow>
                      LogProcessError ?p e \<in> set (run_out w w') \<and>
                      LogSaved (basename ?p) \<notin> set (run_out w w') \<and>
                      (docs w' (basename ?p) = docs w (basename ?p) \<or>
                       docs w' (basename ?p) = None)
                  | None \<Rightarrow>
                      docs w' (basename ?p) = Some md \<and>
                      LogSaved (basename ?p) \<in> set (run_out w w') \<and>
                      (\<forall>e. LogProcessError ?p e \<notin> set (run_out w w')))"
      using hd dd unfolding new_handled_def
      by (auto split: sum.splits option.splits)
    with dec g show "\<exists>h rest r v.
            run_calls w w' = h @ ?D # rest \<and> ?D \<notin> set h \<and> ?D \<notin> set rest \<and>
            get_image_metadata env ?p (at_history w (calls w @ h)) = (r, v) \<and>
            (case r of
               Inl e \<Rightarrow>
                 LogProcessError ?p e \<in> set (run_out w w') \<and>
                 LogSaved (basename ?p) \<notin> set (run_out w w') \<and>
                 (\<forall>md. SetDoc (basename ?p) md \<notin> set (run_calls w w')) \<and>
                 (docs w' (basename ?p) = docs w (basename ?p) \<or> docs w' (basename ?p) = None)
             | Inr md \<Rightarrow>
                 SetDoc (basename ?p) md \<in> set (run_calls w w') \<and>
                 file_name md = ?p \<and> file_id md = basename ?p \<and>
                 (case firestore_set_fault env (calls v) (basename ?p) md of
                    Some e \<Rightarrow>
                      LogProcessError ?p e \<in> set (run_out w w') \<and>
                      LogSaved (basename ?p) \<notin> set (run_out w w') \<and>
                      (docs w' (basename ?p) = docs w (basename ?p) \<or>
                       docs w' (basename ?p) = None)
                  | None \<Rightarrow>
                      docs w' (basename ?p) = Some md \<and>
                      LogSaved (basename ?p) \<in> set (run_out w w') \<and>
                      (\<forall>e. LogProcessError ?p e \<notin> set (run_out w w'))))"
      by blast
  }
qed

text \<open>
  The property at a concrete run: the download of \<^verbatim>\<open>a.jpg\<close> fails and its error is printed;
  \<^verbatim>\<open>b.png\<close>, handled after it, is processed and saved; \<^verbatim>\<open>c.jpg\<close> is deleted.
\<close>

theorem C4_per_item_isolation_witness:
  "set_iter_ok env_flaky \<and> finite (dom (docs w_two))
   \<and> storage_list_fault env_flaky (calls w_two) = None
   \<and> firestore_stream_fault env_flaky (calls w_two @ [ListBlobs ''photos'' []]) = None
   \<and> main env_flaky w_two = (Inr (), w_two_after)
   \<and> ''c.jpg'' \<in> dom (docs w_two) - present_ids env_flaky w_two
   \<and> ''a.jpg'' \<in> present_ids env_flaky w_two - dom (docs w_two)
   \<and> ''b.png'' \<in> present_ids env_flaky w_two - dom (docs w_two)
   \<and> run_calls w_two w_two_after =
       [ListBlobs ''photos'' [], StreamDocs, DeleteDoc ''c.jpg'',
        DownloadBytes ''photos'' ''a.jpg'', DownloadBytes ''photos'' ''b.png'',
        GenerateContent GEMINI_PROMPT (Image ''B''),
        Translate [''cat'', ''dog'', ''outdoor''] ''pt'', SetDoc ''b.png'' record_b]
   \<and> firestore_delete_fault env_flaky [ListBlobs ''photos'' [], StreamDocs] ''c.jpg'' = None
   \<and> LogDeleted ''c.jpg'' \<in> set (run_out w_two w_two_after)
   \<and> docs w_two_after ''c.jpg'' = None
   \<and> fst (get_image_metadata env_flaky ''a.jpg''
            (at_history w_two [ListBlobs ''photos'' [], StreamDocs, DeleteDoc ''c.jpg'']))
       = Inl (ServiceError ''timeout'')
   \<and> LogProcessError ''a.jpg'' (ServiceError ''timeout'') \<in> set (run_out w_two w_two_after)
   \<and> docs w_two_after ''a.jpg'' = None
   \<and> fst (get_image_metadata env_flaky ''b.png''
            (at_history w_two [ListBlobs ''photos'' [], StreamDocs, DeleteDoc ''c.jpg'',
                               DownloadBytes ''photos'' ''a.jpg'']))
       = Inr record_b
   \<and> LogSaved ''b.png'' \<in> set (run_out w_two w_two_after)
   \<and> docs w_two_after ''b.png'' = Some record_b"
proof -
  have f: "finite (dom (docs w_two))" by (simp add: w_two_def)
  have l: "storage_list_fault env_flaky (calls w_two) = None"
    by (simp add: env_flaky_def env_ok_def)
  have st: "firestore_stream_fault env_flaky
      (calls w_two @ [ListBlobs (BUCKET_NAME env_flaky) (BUCKET_FOLDER_PATH env_flaky)]) = None"
    by (simp add: env_flaky_def env_ok_def)
  have n: "BUCKET_NAME env_flaky = ''photos''" "BUCKET_FOLDER_PATH env_flaky = []"
    by (simp_all add: env_flaky_def env_ok_def)
  have p: "present_ids env_flaky w_two = {''a.jpg'', ''b.png''}"
    unfolding present_ids_eq set_filter [symmetric] list.set_map [symmetric]
    by (simp add: list_blobs_def w_two_def n startswith_def endswith_any_def endswith_def
        basename_def insert_commute)
  have d: "dom (docs w_two) = {''c.jpg''}" by (simp add: w_two_def)
  have m1: "''c.jpg'' \<in> dom (docs w_two) - present_ids env_flaky w_two"
    and m2: "''a.jpg'' \<in> present_ids env_flaky w_two - dom (docs w_two)"
    and m3: "''b.png'' \<in> present_ids env_flaky w_two - dom (docs w_two)"
    unfolding p d by simp_all
  have cw: "calls w_two = []" by (simp add: w_two_def)
  have rc: "run_calls w_two w_two_after =
       [ListBlobs ''photos'' [], StreamDocs, DeleteDoc ''c.jpg'',
        DownloadBytes ''photos'' ''a.jpg'', DownloadBytes ''photos'' ''b.png'',
        GenerateContent GEMINI_PROMPT (Image ''B''),
        Translate [''cat'', ''dog'', ''outdoor''] ''pt'', SetDoc ''b.png'' record_b]"
    by (simp add: run_calls_def w_two_def w_two_after_def)
  have rc1: "run_calls w_two w_two_after =
       [ListBlobs ''photos'' [], StreamDocs] @ DeleteDoc ''c.jpg'' #
       [DownloadBytes ''photos'' ''a.jpg'', DownloadBytes ''photos'' ''b.png'',
        GenerateContent GEMINI_PROMPT (Image ''B''),
        Translate [''cat'', ''dog'', ''outdoor''] ''pt'', SetDoc ''b.png'' record_b]"
    and rc2: "run_calls w_two w_two_after =
       [ListBlobs ''photos'' [], StreamDocs, DeleteDoc ''c.jpg''] @
       DownloadBytes ''photos'' ''a.jpg'' #
       [DownloadBytes ''photos'' ''b.png'', GenerateContent GEMINI_PROMPT (Image ''B''),
        Translate [''cat'', ''dog'', ''outdoor''] ''pt'', SetDoc ''b.png'' record_b]"
    and rc3: "run_calls w_two w_two_after =
       [ListBlobs ''photos'' [], StreamDocs, DeleteDoc ''c.jpg'',
        DownloadBytes ''photos'' ''a.jpg''] @
       DownloadBytes ''photos'' ''b.png'' #
       [GenerateContent GEMINI_PROMPT (Image ''B''),
        Translate [''cat'', ''dog'', ''outdoor''] ''pt'', SetDoc ''b.png'' record_b]"
    unfolding rc by simp_all
  have df: "firestore_delete_fault env_flaky [ListBlobs ''photos'' [], StreamDocs] ''c.jpg'' = None"
    by (simp add: env_flaky_def env_ok_def)
  have ga: "fst (get_image_metadata env_flaky ''a.jpg''
            (at_history w_two [ListBlobs ''photos'' [], StreamDocs, DeleteDoc ''c.jpg'']))
       = Inl (ServiceError ''timeout'')"
    by (simp add: get_image_metadata_def download_as_bytes_def env_flaky_def env_ok_def Let_def)
  have gb: "fst (get_image_metadata env_flaky ''b.png''
            (at_history w_two [ListBlobs ''photos'' [], StreamDocs, DeleteDoc ''c.jpg'',
                               DownloadBytes ''photos'' ''a.jpg'']))
       = Inr record_b"
    by (simp add: run_defs at_history_def env_flaky_def env_ok_def w_two_def record_b_def)
  have sf: "firestore_set_fault env_flaky h k md = None" for h k md
    by (simp add: env_flaky_def env_ok_def)
  note c4 = C4_per_item_isolation [OF set_iter_ok_env_flaky f l st main_flaky]
  note old = bspec [OF c4 [THEN conjunct2, THEN conjunct1]]
  note new = bspec [OF c4 [THEN conjunct2, THEN conjunct2, THEN conjunct1]]
  from old [OF m1] obtain h1 rest1 where
    dec1: "run_calls w_two w_two_after = h1 @ DeleteDoc ''c.jpg'' # rest1"
      "DeleteDoc ''c.jpg'' \<notin> set h1"
    and o1: "case firestore_delete_fault env_flaky (calls w_two @ h1) ''c.jpg'' of
               Some e \<Rightarrow>
                 LogDeleteError ''c.jpg'' e \<in> set (run_out w_two w_two_after) \<and>
                 LogDeleted ''c.jpg'' \<notin> set (run_out w_two w_two_after) \<and>
                 docs w_two_after ''c.jpg'' = docs w_two ''c.jpg''
             | None \<Rightarrow>
                 LogDeleted ''c.jpg'' \<in> set (run_out w_two w_two_after) \<and>
                 (\<forall>e. LogDeleteError ''c.jpg'' e \<notin> set (run_out w_two w_two_after)) \<and>
                 docs w_two_after ''c.jpg'' = None"
    by (elim exE conjE)
  have h1: "h1 = [ListBlobs ''photos'' [], StreamDocs]"
    by (rule split_at_unique [OF dec1(1) [unfolded rc1, symmetric] dec1(2)]) simp
  from o1 have c: "LogDeleted ''c.jpg'' \<in> set (run_out w_two w_two_after)"
    "docs w_two_after ''c.jpg'' = None" unfolding h1 cw by (simp_all add: df)
  from new [OF m2, unfolded n append_Nil] obtain h2 rest2 r2 v2 where
    dec2: "run_calls w_two w_two_after = h2 @ DownloadBytes ''photos'' ''a.jpg'' # rest2"
      "DownloadBytes ''photos'' ''a.jpg'' \<notin> set h2"
    and g2: "get_image_metadata env_flaky ''a.jpg'' (at_history w_two (calls w_two @ h2)) = (r2, v2)"
    and o2: "r2 = Inl (ServiceError ''timeout'') \<longrightarrow>
       LogProcessError ''a.jpg'' (ServiceError ''timeout'') \<in> set (run_out w_two w_two_after)"
    apply (elim exE conjE)
    apply (rule that)
       apply assumption+
    apply (rule impI)
    apply (simp only: sum.case)
    done
  have h2: "h2 = [ListBlobs ''photos'' [], StreamDocs, DeleteDoc ''c.jpg'']"
    by (rule split_at_unique [OF dec2(1) [unfolded rc2, symmetric] dec2(2)]) simp
  from g2 ga have "r2 = Inl (ServiceError ''timeout'')" unfolding h2 cw by simp
  with o2 have a: "LogProcessError ''a.jpg'' (ServiceError ''timeout'')
      \<in> set (run_out w_two w_two_after)" by simp
  from new [OF m3, unfolded n append_Nil] obtain h3 rest3 r3 v3 where
    dec3: "run_calls w_two w_two_after = h3 @ DownloadBytes ''photos'' ''b.png'' # rest3"
      "DownloadBytes ''photos'' ''b.png'' \<notin> set h3"
    and g3: "get_image_metadata env_flaky ''b.png'' (at_history w_two (calls w_two @ h3)) = (r3, v3)"
    and o3: "r3 = Inr record_b \<longrightarrow>
       docs w_two_after (basename ''b.png'') = Some record_b \<and>
       LogSaved (basename ''b.png'') \<in> set (run_out w_two w_two_after)"
    apply (elim exE conjE)
    apply (rule that)
       apply assumption+
    apply (rule impI)
    apply (simp only: sum.case sf option.case)
    done
  have h3: "h3 = [ListBlobs ''photos'' [], StreamDocs, DeleteDoc ''c.jpg'',
                  DownloadBytes ''photos'' ''a.jpg'']"
    by (rule split_at_unique [OF dec3(1) [unfolded rc3, symmetric] dec3(2)]) simp
  from g3 gb have "r3 = Inr record_b" unfolding h3 cw by simp
  with o3 have b: "docs w_two_after (basename ''b.png'') = Some record_b"
    "LogSaved (basename ''b.png'') \<in> set (run_out w_two w_two_after)" by simp_all
  have bn: "basename ''b.png'' = ''b.png''" by (simp add: basename_def)
  have da: "docs w_two_after ''a.jpg'' = None" by (simp add: w_two_after_def)
  from f l st [unfolded n] m1 m2 m3 main_flaky rc df c ga a da gb b [unfolded bn]
    set_iter_ok_env_flaky
  show ?thesis by blast
qed

end
